theory Spec2Isabelle
  imports Complex_Main
begin

section \<open>Strings and the text normaliser\<close>

text \<open>
  A JavaScript string is a sequence of UTF-16 code units; the regular expressions of the
  source carry no \<open>u\<close> flag, so they work on code units too. A string is therefore modelled
  as a list of code units, each a natural number: 9 is TAB, 10 is LF, 13 is CR and 32 is
  the space. \<open>js\<close> turns an ASCII literal into such a list.
\<close>

type_synonym jsstring = "nat list"

definition js :: "string \<Rightarrow> jsstring" where
  "js s = map of_char s"

text \<open>
  \<open>String.prototype.replace\<close> with a global regular expression and a constant replacement
  (neither \<open>"\n"\<close> nor \<open>"\n\n"\<close> contains a dollar pattern): the string is scanned from the
  left; where the expression matches, the replacement is emitted and the scan goes on
  behind the match, otherwise the code unit is copied and the scan moves one unit on.
  A matcher returns the length of the match that starts at the head of its argument.
  None of the three expressions of the source matches the empty string, so a match of
  length 0 does not occur.
\<close>

type_synonym matcher = "jsstring \<Rightarrow> nat option"

fun replace_all :: "matcher \<Rightarrow> jsstring \<Rightarrow> jsstring \<Rightarrow> jsstring" where
  "replace_all m r [] = []"
| "replace_all m r (x # xs) =
     (case m (x # xs) of
        Some (Suc k) \<Rightarrow> r @ replace_all m r (drop k xs)
      | _ \<Rightarrow> x # replace_all m r xs)"

definition is_blank :: "nat \<Rightarrow> bool" where
  "is_blank c = (c = 32 \<or> c = 9)"

definition is_lf :: "nat \<Rightarrow> bool" where
  "is_lf c = (c = 10)"

definition is_cr :: "nat \<Rightarrow> bool" where
  "is_cr c = (c = 13)"

text \<open>The expression \<open>/\r\n/\<close>.\<close>

definition match_crlf :: matcher where
  "match_crlf s =
     (case s of a # b # _ \<Rightarrow> if is_cr a \<and> is_lf b then Some 2 else None | _ \<Rightarrow> None)"

text \<open>
  The expression \<open>/[ \t]+\n/\<close>: the greedy class takes the whole run of spaces and tabs;
  giving units back cannot help, since every unit of the run is a space or a tab and not
  a line feed.
\<close>

definition match_blanks_lf :: matcher where
  "match_blanks_lf s =
     (let k = length (takeWhile is_blank s)
      in if 0 < k \<and> (case drop k s of c # _ \<Rightarrow> is_lf c | [] \<Rightarrow> False)
         then Some (k + 1) else None)"

text \<open>The expression \<open>/\n{3,}/\<close>: the greedy quantifier takes the whole run of line feeds.\<close>

definition match_lf3 :: matcher where
  "match_lf3 s =
     (let k = length (takeWhile is_lf s) in if 3 \<le> k then Some k else None)"

text \<open>
  \<open>String.prototype.trim\<close> removes white space and line terminators from both ends: TAB,
  LF, VT, FF, CR, space, NBSP, the space separators U+1680, U+2000 to U+200A, U+202F,
  U+205F and U+3000, the line and paragraph separators U+2028 and U+2029, and U+FEFF.
\<close>

definition is_ws :: "nat \<Rightarrow> bool" where
  "is_ws c = (c \<in> {9, 10, 11, 12, 13, 32, 160, 5760, 8232, 8233, 8239, 8287, 12288, 65279}
              \<or> (8192 \<le> c \<and> c \<le> 8202))"

definition trim :: "jsstring \<Rightarrow> jsstring" where
  "trim s = rev (dropWhile is_ws (rev (dropWhile is_ws s)))"

definition replace_crlf :: "jsstring \<Rightarrow> jsstring" where
  "replace_crlf = replace_all match_crlf [10]"

definition replace_blanks_lf :: "jsstring \<Rightarrow> jsstring" where
  "replace_blanks_lf = replace_all match_blanks_lf [10]"

definition replace_lf3 :: "jsstring \<Rightarrow> jsstring" where
  "replace_lf3 = replace_all match_lf3 [10, 10]"

text \<open>
  \<open>_normalizeExtractedText\<close> (an Isabelle name cannot start with an underscore). The
  argument is a string at its only call site; \<open>t || ""\<close> then replaces the empty string,
  the only falsy string, by the empty string.
\<close>

definition normalizeExtractedText :: "jsstring \<Rightarrow> jsstring" where
  "normalizeExtractedText t =
     trim (replace_lf3 (replace_blanks_lf (replace_crlf (if t = [] then [] else t))))"

text \<open>
  Predicates for stating properties of strings: \<open>contains ps s\<close> holds when some
  contiguous stretch of \<open>s\<close> satisfies the predicates \<open>ps\<close> unit by unit; \<open>trimmed s\<close> when
  \<open>s\<close> neither starts nor ends with a unit that \<open>trim\<close> removes.
\<close>

fun starts_with :: "(nat \<Rightarrow> bool) list \<Rightarrow> jsstring \<Rightarrow> bool" where
  "starts_with [] s = True"
| "starts_with (p # ps) [] = False"
| "starts_with (p # ps) (c # cs) = (p c \<and> starts_with ps cs)"

fun contains :: "(nat \<Rightarrow> bool) list \<Rightarrow> jsstring \<Rightarrow> bool" where
  "contains ps [] = starts_with ps []"
| "contains ps (c # cs) = (starts_with ps (c # cs) \<or> contains ps cs)"

definition trimmed :: "jsstring \<Rightarrow> bool" where
  "trimmed s = (s = [] \<or> (\<not> is_ws (hd s) \<and> \<not> is_ws (last s)))"

definition lf_after_blanks :: "jsstring \<Rightarrow> bool" where
  "lf_after_blanks s = (case dropWhile is_blank s of d # _ \<Rightarrow> is_lf d | [] \<Rightarrow> False)"

section \<open>The concurrency limiter\<close>

text \<open>
  Errors are values. \<open>External n\<close> stands for an error object raised by a collaborator
  (the file system, a child process, the image library, the recognition service); the
  number only tells one such object from another.
\<close>

datatype error = InvalidPageCount jsstring | RangeError | TypeError | External nat

text \<open>
  \<open>createConcurrencyLimiter(max)\<close> returns an async function that closes over the counter
  \<open>active\<close> and the array \<open>queue\<close> of resolvers. JavaScript runs the code between two
  \<open>await\<close>s without interruption, so an invocation of that function is, at every instant,
  at one of these places:
  \<^item> \<open>Idle\<close>: not called yet;
  \<^item> \<open>Queued\<close>: suspended in the \<open>while\<close> loop, its resolver in \<open>queue\<close>;
  \<^item> \<open>Woken\<close>: its resolver has been called by \<open>queue.shift()()\<close>, and it has not resumed yet;
  \<^item> \<open>Holding\<close>: past \<open>active++\<close>, inside \<open>try\<close>, waiting for \<open>fn()\<close>;
  \<^item> \<open>Done r\<close>: past \<open>finally\<close>; \<open>r\<close> is \<open>None\<close> when \<open>fn\<close> returned and the error when it threw.

  The state of a limiter is its limit, the counter, the queue (each resolver is named by
  the invocation it resumes) and the place of each of the \<open>n\<close> invocations it will see.
\<close>

datatype tphase = Idle | Queued | Woken | Holding | Done "error option"

text \<open>
  The limit is a JavaScript number: the three limiters of the source are made with
  \<open>Number(process.env... || conf...)\<close>, which is NaN for an entry that is missing or is no
  numeral, an infinity, or a finite value that need not be an integer. The finite values
  are rationals. The counter \<open>active\<close> starts at 0 and only moves by \<open>active++\<close> and
  \<open>active--\<close>, so it is an integer. \<open>reaches a m\<close> is the test \<open>a >= m\<close> of the loop: a
  comparison with NaN is false.
\<close>

datatype number = NaN | MinusInfinity | Finite rat | PlusInfinity

fun reaches :: "int \<Rightarrow> number \<Rightarrow> bool" where
  "reaches a NaN = False"
| "reaches a MinusInfinity = True"
| "reaches a (Finite q) = (q \<le> of_int a)"
| "reaches a PlusInfinity = False"

record limiter_state =
  limit :: number
  active :: int
  queue :: "nat list"
  phases :: "tphase list"

definition createConcurrencyLimiter :: "number \<Rightarrow> nat \<Rightarrow> limiter_state" where
  "createConcurrencyLimiter mx n =
     \<lparr>limit = mx, active = 0, queue = [], phases = replicate n Idle\<rparr>"

text \<open>
  One test of the loop condition, run when the function is called and again whenever it
  resumes: \<open>while (active >= max) await new Promise(r => queue.push(r)); active++;\<close>
\<close>

definition enter :: "nat \<Rightarrow> limiter_state \<Rightarrow> limiter_state" where
  "enter t g =
     (if reaches (active g) (limit g)
      then g\<lparr>queue := queue g @ [t], phases := (phases g)[t := Queued]\<rparr>
      else g\<lparr>active := active g + 1, phases := (phases g)[t := Holding]\<rparr>)"

text \<open>
  The \<open>finally\<close> block, run when \<open>fn()\<close> has returned or thrown:
  \<open>active--; if (queue.length) queue.shift()();\<close>
\<close>

definition leave :: "nat \<Rightarrow> error option \<Rightarrow> limiter_state \<Rightarrow> limiter_state" where
  "leave t r g =
     (let g1 = g\<lparr>active := active g - 1, phases := (phases g)[t := Done r]\<rparr>
      in case queue g1 of
           [] \<Rightarrow> g1
         | w # ws \<Rightarrow> g1\<lparr>queue := ws, phases := (phases g1)[w := Woken]\<rparr>)"

text \<open>
  What the event loop can do to a limiter: call it for a new task, resume a woken
  invocation, or settle the function of an invocation that holds a permit. An event that
  the state does not enable changes nothing.
\<close>

datatype levent = Call nat | Resume nat | Settle nat "error option"

fun limiter_step :: "limiter_state \<Rightarrow> levent \<Rightarrow> limiter_state" where
  "limiter_step g (Call t) =
     (if t < length (phases g) \<and> phases g ! t = Idle then enter t g else g)"
| "limiter_step g (Resume t) =
     (if t < length (phases g) \<and> phases g ! t = Woken then enter t g else g)"
| "limiter_step g (Settle t r) =
     (if t < length (phases g) \<and> phases g ! t = Holding then leave t r g else g)"

text \<open>The permits that are out: the invocations between \<open>active++\<close> and \<open>active--\<close>.\<close>

definition permits :: "limiter_state \<Rightarrow> nat" where
  "permits g = count_list (phases g) Holding"

text \<open>
  The invariant of a limiter: the counter is the number of permits that are out; when it
  is not 0, the counter less one does not reach the limit, since every invocation that
  raised the counter found it below the limit; the queue holds the resolvers of
  invocations suspended in the loop, each once.
\<close>

definition limiter_inv :: "limiter_state \<Rightarrow> bool" where
  "limiter_inv g \<longleftrightarrow>
     active g = int (permits g) \<and> (active g = 0 \<or> \<not> reaches (active g - 1) (limit g)) \<and>
     distinct (queue g) \<and>
     (\<forall>w \<in> set (queue g). w < length (phases g) \<and> phases g ! w = Queued)"

text \<open>
  Well-formedness of the queue, for the proofs: every resolver in it belongs to an
  invocation that is suspended in the loop, and none occurs twice.
\<close>

definition queue_ok :: "limiter_state \<Rightarrow> bool" where
  "queue_ok g \<longleftrightarrow>
     distinct (queue g) \<and> (\<forall>w \<in> set (queue g). w < length (phases g) \<and> phases g ! w = Queued)"

section \<open>The pipeline\<close>

subsection \<open>Collaborators\<close>

text \<open>
  The file system, the \<open>mutool\<close> child processes, the image library and the recognition
  service are outside the program. Each of their calls is awaited and may reject, so the
  outcome of each call is a parameter of the model:
  \<^item> \<open>mkdir_res k\<close>: the \<open>k\<close>-th \<open>mmkdir\<close> (0: \<open>pagesDir\<close>, 1: \<open>enhancedDir\<close>, 2: \<open>outDir\<close> in
    \<open>_convertPdfToPngImages\<close>); \<open>write_res\<close>: \<open>mwrite(pdfPath, pdfBuffer)\<close>;
  \<^item> \<open>show_res\<close>: \<open>mutool show ... trailer/Root/Pages/Count\<close>, the error of \<open>execp\<close> or the
    standard output; \<open>draw_res p\<close>: \<open>mutool draw\<close> of page \<open>p\<close>;
  \<^item> \<open>list_res\<close>: lines 135 to 141 of the source taken as one step (\<open>mdir\<close>, the filter on
    \<open>.png\<close>, the numeric sort, \<open>mstat\<close> of every file): an error, or the page image paths in
    page order;
  \<^item> \<open>enhance_res i\<close>: \<open>_enhanceImageUsingSharp\<close> for the image of index \<open>i\<close>;
  \<^item> \<open>client\<close>: whether \<open>documentAiClient\<close> has been assigned; \<open>read_res i\<close>: \<open>mread\<close> of the
    enhanced image; \<open>ocr_res i\<close>: \<open>processDocument\<close>, a rejection or the response;
  \<^item> \<open>rm_res k\<close>: the \<open>k\<close>-th \<open>mrm(session, ...)\<close> of a run;
  \<^item> \<open>conc_pdf\<close>, \<open>conc_enh\<close>, \<open>conc_ocr\<close>: the three configured limits, the numbers
    \<open>CONCURRENCY_PDF_CONVERSION\<close>, \<open>CONCURRENCY_IMAGE_ENHANCEMENT\<close> and
    \<open>CONCURRENCY_GOOGLE_OCR\<close>.

  A response either lacks \<open>document\<close> (then \<open>doc.text\<close> raises a TypeError) or carries a
  document whose \<open>text\<close> is a string or is missing.
\<close>

datatype response = NoDocument | Document "jsstring option"

datatype call =
  Mkdir nat | WriteFile | MutoolShow | MutoolDraw nat | ReadDir | Enhance nat | Recognize nat | Rm

record env =
  mkdir_res :: "nat \<Rightarrow> error option"
  write_res :: "error option"
  show_res :: "error + jsstring"
  draw_res :: "nat \<Rightarrow> error option"
  list_res :: "error + jsstring list"
  enhance_res :: "nat \<Rightarrow> error option"
  client :: bool
  read_res :: "nat \<Rightarrow> error option"
  ocr_res :: "nat \<Rightarrow> error + response"
  rm_res :: "nat \<Rightarrow> error option"
  conc_pdf :: number
  conc_enh :: number
  conc_ocr :: number

text \<open>
  What a run does to the world: the calls it makes to its collaborators, in order, and
  whether the session directory exists. A successful recursive \<open>mkdir\<close> creates it, a
  successful recursive \<open>rm\<close> removes it; no other call creates a directory (\<open>writeFile\<close>
  and \<open>mutool draw -o\<close> write a file into a directory that exists).
\<close>

record world =
  calls :: "call list"
  ws_exists :: bool

text \<open>
  An async function has returned, has thrown, or is still pending when the events of the
  schedule are used up.
\<close>

datatype 'a completion = Pending | Raised error | Returned 'a

text \<open>
  The order in which the event loop serves the concurrent tasks is a parameter too: a
  schedule is a list of events. An event resumes a woken invocation of a limiter,
  completes the awaited call of a task, or (\<open>OcrStart\<close>) runs the continuation of
  \<open>await enhancedPromises[i].promise\<close>.
\<close>

datatype event =
  DrawResume nat | DrawSettle nat
| EnhResume nat | EnhSettle nat
| OcrResume nat | OcrStart nat | OcrSettle nat

text \<open>
  The module initialiser of lines 75 to 80: an async function that is called and not
  awaited. Its result is whether \<open>documentAiClient\<close> is assigned, and the rejection of the
  promise that nothing awaits or handles.
\<close>

datatype init_error = CredentialsNotFound

definition initDocumentAiClient :: "bool \<Rightarrow> bool \<times> init_error option" where
  "initDocumentAiClient keyfile_exists =
     (if \<not> keyfile_exists then (False, Some CredentialsNotFound) else (True, None))"

subsection \<open>Counting the pages\<close>

text \<open>
  \<open>parseInt\<close> with no radix: leading white space is skipped, a sign is read, the prefix
  \<open>0x\<close> or \<open>0X\<close> selects radix 16, and the longest run of digits is the value; \<open>None\<close> is
  NaN, the result when there is no digit. The value is kept exact (JavaScript rounds
  beyond 2^53, which changes neither the sign nor whether the value is zero).
\<close>

definition digit_val :: "nat \<Rightarrow> nat \<Rightarrow> nat option" where
  "digit_val radix c =
     (let v = (if 48 \<le> c \<and> c \<le> 57 then Some (c - 48)
               else if 97 \<le> c \<and> c \<le> 122 then Some (c - 87)
               else if 65 \<le> c \<and> c \<le> 90 then Some (c - 55)
               else None)
      in case v of None \<Rightarrow> None | Some d \<Rightarrow> if d < radix then Some d else None)"

fun scan_digits :: "nat \<Rightarrow> jsstring \<Rightarrow> nat \<Rightarrow> nat" where
  "scan_digits radix [] acc = acc"
| "scan_digits radix (c # cs) acc =
     (case digit_val radix c of
        None \<Rightarrow> acc
      | Some d \<Rightarrow> scan_digits radix cs (acc * radix + d))"

definition parseInt :: "jsstring \<Rightarrow> int option" where
  "parseInt s =
     (let s1 = dropWhile is_ws s;
          neg = (case s1 of c # _ \<Rightarrow> c = 45 | [] \<Rightarrow> False);
          s2 = (case s1 of c # r \<Rightarrow> if c = 45 \<or> c = 43 then r else s1 | [] \<Rightarrow> []);
          hex = (case s2 of a # b # _ \<Rightarrow> a = 48 \<and> (b = 120 \<or> b = 88) | _ \<Rightarrow> False);
          radix = (if hex then 16 else 10);
          s3 = (if hex then drop 2 s2 else s2)
      in case s3 of
           [] \<Rightarrow> None
         | c # _ \<Rightarrow>
             if digit_val radix c = None then None
             else Some ((if neg then - 1 else 1) * int (scan_digits radix s3 0)))"

text \<open>
  \<open>_getPdfPageCount\<close>: \<open>execp\<close> trims the output; \<open>!n\<close> holds for NaN and for 0.
\<close>

definition getPdfPageCount :: "env \<Rightarrow> error + int" where
  "getPdfPageCount env =
     (case show_res env of
        Inl e \<Rightarrow> Inl e
      | Inr stdout \<Rightarrow>
          (let out = trim stdout in
           case parseInt out of
             None \<Rightarrow> Inl (InvalidPageCount out)
           | Some n \<Rightarrow> if n = 0 \<or> n < 1 then Inl (InvalidPageCount out) else Inr n))"

subsection \<open>Rasterising\<close>

definition holds :: "limiter_state \<Rightarrow> nat \<Rightarrow> bool" where
  "holds g t = (t < length (phases g) \<and> phases g ! t = Holding)"

text \<open>\<open>Promise.all\<close> rejects with the first rejection and is fulfilled when every task is.\<close>

definition first_error :: "error option \<Rightarrow> error option \<Rightarrow> error option" where
  "first_error a b = (case a of None \<Rightarrow> b | Some e \<Rightarrow> Some e)"

definition all_fulfilled :: "limiter_state \<Rightarrow> bool" where
  "all_fulfilled g = list_all (\<lambda>p. p = Done None) (phases g)"

text \<open>
  The conversion tasks under their limiter. The function given to the limiter starts
  \<open>mutool draw\<close> for page \<open>t + 1\<close> as soon as the invocation holds a permit, so the call is
  logged when the phase becomes \<open>Holding\<close>.
\<close>

record rstate =
  limiter :: limiter_state
  rrejection :: "error option"
  rcalls :: "call list"

definition draw_enter :: "nat \<Rightarrow> levent \<Rightarrow> rstate \<Rightarrow> rstate" where
  "draw_enter t ev s =
     (let g = limiter_step (limiter s) ev
      in s\<lparr>limiter := g,
            rcalls := rcalls s @ (if \<not> holds (limiter s) t \<and> holds g t then [MutoolDraw (t + 1)] else [])\<rparr>)"

fun rstep :: "env \<Rightarrow> rstate \<Rightarrow> event \<Rightarrow> rstate" where
  "rstep env s (DrawResume t) = draw_enter t (Resume t) s"
| "rstep env s (DrawSettle t) =
     (if holds (limiter s) t
      then s\<lparr>limiter := limiter_step (limiter s) (Settle t (draw_res env (t + 1))),
             rrejection := first_error (rrejection s) (draw_res env (t + 1))\<rparr>
      else s)"
| "rstep env s _ = s"

text \<open>\<open>Array.from\<close> calls the limiter for the pages in order, before anything else runs.\<close>

definition rstart :: "env \<Rightarrow> nat \<Rightarrow> rstate" where
  "rstart env n =
     foldl (\<lambda>s t. draw_enter t (Call t) s)
       \<lparr>limiter = createConcurrencyLimiter (conc_pdf env) n, rrejection = None, rcalls = []\<rparr>
       [0..<n]"

definition rsettled :: "rstate \<Rightarrow> bool" where
  "rsettled s = (rrejection s \<noteq> None \<or> all_fulfilled (limiter s))"

text \<open>
  \<open>await Promise.all(...)\<close>: events are served until the promise settles; the events that
  are left belong to what runs afterwards.
\<close>

fun await_raster :: "env \<Rightarrow> rstate \<Rightarrow> event list \<Rightarrow> rstate \<times> event list" where
  "await_raster env s [] = (s, [])"
| "await_raster env s (ev # rest) =
     (if rsettled s then (s, ev # rest) else await_raster env (rstep env s ev) rest)"

text \<open>
  \<open>Promise.all\<close> rejects with the first rejection and stops none of the other tasks. The
  \<open>finally\<close> block of the failing task has called the resolver of the invocation at the
  head of the queue before the rejection reaches \<open>Promise.all\<close>, so the job that resumes
  that invocation is queued before the job in which the awaiting function goes on. An
  invocation that has been woken therefore resumes, and starts its call if it gets the
  permit, before the function throws; \<open>raster_woken\<close> resumes every such invocation. The
  settlement of any other call is a later turn of the event loop: the tasks that are still
  running are served by the rest of the schedule, and \<open>raster_stragglers\<close> is the list of
  the calls they make then.
\<close>

definition raster_woken :: "env \<Rightarrow> rstate \<Rightarrow> rstate" where
  "raster_woken env s = foldl (rstep env) s (map DrawResume [0..<length (phases (limiter s))])"

definition raster_stragglers :: "env \<Rightarrow> rstate \<Rightarrow> event list \<Rightarrow> call list" where
  "raster_stragglers env s evs = rcalls (foldl (rstep env) (s\<lparr>rcalls := []\<rparr>) evs)"

definition do_mkdir :: "env \<Rightarrow> nat \<Rightarrow> world \<Rightarrow> world \<times> error option" where
  "do_mkdir env k w =
     (case mkdir_res env k of
        None \<Rightarrow> (w\<lparr>calls := calls w @ [Mkdir k], ws_exists := True\<rparr>, None)
      | Some e \<Rightarrow> (w\<lparr>calls := calls w @ [Mkdir k]\<rparr>, Some e))"

text \<open>
  \<open>_convertPdfToPngImages\<close>. \<open>Array.from({ length: pageCount })\<close> raises a RangeError for a
  length above 2^32 - 1. The third component of the result holds the calls that conversion
  tasks make after the function has thrown.
\<close>

definition convertPdfToPngImages ::
  "env \<Rightarrow> event list \<Rightarrow> world \<Rightarrow>
     world \<times> (jsstring list \<times> event list) completion \<times> call list" where
  "convertPdfToPngImages env evs w =
     (case do_mkdir env 2 w of
        (w1, Some e) \<Rightarrow> (w1, Raised e, [])
      | (w1, None) \<Rightarrow>
          (let w2 = w1\<lparr>calls := calls w1 @ [MutoolShow]\<rparr> in
           case getPdfPageCount env of
             Inl e \<Rightarrow> (w2, Raised e, [])
           | Inr pageCount \<Rightarrow>
               if pageCount > 4294967295 then (w2, Raised RangeError, [])
               else
                 (case await_raster env (rstart env (nat pageCount)) evs of
                    (rs, rest) \<Rightarrow>
                      if \<not> rsettled rs then (w2\<lparr>calls := calls w2 @ rcalls rs\<rparr>, Pending, [])
                      else case rrejection rs of
                             Some e \<Rightarrow>
                               (let rs' = raster_woken env rs
                                in (w2\<lparr>calls := calls w2 @ rcalls rs'\<rparr>, Raised e,
                                    raster_stragglers env rs' rest))
                           | None \<Rightarrow>
                               (let w4 = w2\<lparr>calls := calls w2 @ rcalls rs @ [ReadDir]\<rparr> in
                                case list_res env of
                                  Inl e \<Rightarrow> (w4, Raised e, [])
                                | Inr files \<Rightarrow> (w4, Returned (files, rest), [])))))"

subsection \<open>Enhancing and recognising\<close>

text \<open>
  The state of lines 212 to 246: the two limiters, for every page whether
  the promise \<open>enhancedPromises[i].promise\<close> is resolved (\<open>enhancedPromises\<close>) and whether the recognition task is past
  its \<open>await\<close> of that promise (\<open>begun\<close>), the array \<open>pageResults\<close> (\<open>None\<close> is a slot that
  was never written), the first rejection that \<open>Promise.all\<close> has seen, and the calls made.
\<close>

record pstate =
  enhanceLimiter :: limiter_state
  ocrLimiter :: limiter_state
  enhancedPromises :: "bool list"
  begun :: "bool list"
  pageResults :: "jsstring option list"
  rejection :: "error option"
  pcalls :: "call list"

definition enh_enter :: "nat \<Rightarrow> levent \<Rightarrow> pstate \<Rightarrow> pstate" where
  "enh_enter i ev s =
     (let g = limiter_step (enhanceLimiter s) ev
      in s\<lparr>enhanceLimiter := g,
            pcalls := pcalls s @ (if \<not> holds (enhanceLimiter s) i \<and> holds g i then [Enhance i] else [])\<rparr>)"

text \<open>
  \<open>_performDocumentAiOcrOnImage\<close>: the image is read first; with \<open>documentAiClient\<close>
  undefined, \<open>documentAiClient.processDocument\<close> raises a TypeError before any request is
  made.
\<close>

definition performDocumentAiOcrOnImage :: "env \<Rightarrow> nat \<Rightarrow> error + response" where
  "performDocumentAiOcrOnImage env i =
     (case read_res env i of
        Some e \<Rightarrow> Inl e
      | None \<Rightarrow> if \<not> client env then Inl TypeError else ocr_res env i)"

text \<open>
  The rest of the recognition task:
  \<open>pageResults[i] = _normalizeExtractedText(doc.text || "")\<close>.
\<close>

definition ocr_body :: "env \<Rightarrow> nat \<Rightarrow> error + jsstring" where
  "ocr_body env i =
     (case performDocumentAiOcrOnImage env i of
        Inl e \<Rightarrow> Inl e
      | Inr NoDocument \<Rightarrow> Inl TypeError
      | Inr (Document t) \<Rightarrow>
          Inr (normalizeExtractedText (case t of None \<Rightarrow> [] | Some x \<Rightarrow> if x = [] then [] else x)))"

text \<open>
  One event of the phase. An enhancement that succeeds resolves the promise of its page
  and then leaves its limiter; one that fails leaves the promise unresolved. A
  recognition task holds its permit while it waits for the promise of its page; only
  when that promise is resolved can \<open>OcrStart\<close> take it on to the recognition call.
\<close>

fun pstep :: "env \<Rightarrow> pstate \<Rightarrow> event \<Rightarrow> pstate" where
  "pstep env s (EnhResume i) = enh_enter i (Resume i) s"
| "pstep env s (EnhSettle i) =
     (if holds (enhanceLimiter s) i
      then (let r = enhance_res env i
            in s\<lparr>enhanceLimiter := limiter_step (enhanceLimiter s) (Settle i r),
                  enhancedPromises := (if r = None then (enhancedPromises s)[i := True] else enhancedPromises s),
                  rejection := first_error (rejection s) r\<rparr>)
      else s)"
| "pstep env s (OcrResume i) = s\<lparr>ocrLimiter := limiter_step (ocrLimiter s) (Resume i)\<rparr>"
| "pstep env s (OcrStart i) =
     (if holds (ocrLimiter s) i \<and> i < length (enhancedPromises s) \<and> enhancedPromises s ! i
         \<and> i < length (begun s) \<and> \<not> begun s ! i
      then s\<lparr>begun := (begun s)[i := True],
             pcalls := pcalls s @ (if read_res env i = None \<and> client env then [Recognize i] else [])\<rparr>
      else s)"
| "pstep env s (OcrSettle i) =
     (if holds (ocrLimiter s) i \<and> i < length (begun s) \<and> begun s ! i
      then (case ocr_body env i of
              Inl e \<Rightarrow>
                s\<lparr>ocrLimiter := limiter_step (ocrLimiter s) (Settle i (Some e)),
                  rejection := first_error (rejection s) (Some e)\<rparr>
            | Inr t \<Rightarrow>
                s\<lparr>ocrLimiter := limiter_step (ocrLimiter s) (Settle i None),
                  pageResults := (pageResults s)[i := Some t]\<rparr>)
      else s)"
| "pstep env s _ = s"

text \<open>
  The two \<open>pageImages.map\<close> calls: every enhancement task is handed to its limiter, then
  every recognition task to its own.
\<close>

definition pstart :: "env \<Rightarrow> nat \<Rightarrow> pstate" where
  "pstart env n =
     (let s0 = \<lparr>enhanceLimiter = createConcurrencyLimiter (conc_enh env) n,
                ocrLimiter = createConcurrencyLimiter (conc_ocr env) n,
                enhancedPromises = replicate n False, begun = replicate n False,
                pageResults = replicate n None, rejection = None, pcalls = []\<rparr>;
          s1 = foldl (\<lambda>s i. enh_enter i (Call i) s) s0 [0..<n]
      in foldl (\<lambda>s i. s\<lparr>ocrLimiter := limiter_step (ocrLimiter s) (Call i)\<rparr>) s1 [0..<n])"

definition psettled :: "pstate \<Rightarrow> bool" where
  "psettled s = (rejection s \<noteq> None \<or> (all_fulfilled (enhanceLimiter s) \<and> all_fulfilled (ocrLimiter s)))"

text \<open>\<open>await Promise.all([...enhanceTasks, ...ocrTasks])\<close>, as for the conversion.\<close>

fun await_pipeline :: "env \<Rightarrow> pstate \<Rightarrow> event list \<Rightarrow> pstate \<times> event list" where
  "await_pipeline env s [] = (s, [])"
| "await_pipeline env s (ev # rest) =
     (if psettled s then (s, ev # rest) else await_pipeline env (pstep env s ev) rest)"

definition pipeline_woken :: "env \<Rightarrow> pstate \<Rightarrow> pstate" where
  "pipeline_woken env s =
     foldl (pstep env) s
       (map EnhResume [0..<length (phases (enhanceLimiter s))]
        @ map OcrResume [0..<length (phases (ocrLimiter s))])"

definition pipeline_stragglers :: "env \<Rightarrow> pstate \<Rightarrow> event list \<Rightarrow> call list" where
  "pipeline_stragglers env s evs = pcalls (foldl (pstep env) (s\<lparr>pcalls := []\<rparr>) evs)"

subsection \<open>Assembling the text\<close>

text \<open>The decimal digits of a page number, as the template literal prints it.\<close>

fun decimal :: "nat \<Rightarrow> jsstring" where
  "decimal n = (if n < 10 then [48 + n] else decimal (n div 10) @ [48 + n mod 10])"

declare decimal.simps [simp del]

definition page_marker :: "nat \<Rightarrow> jsstring" where
  "page_marker k = [10, 10] @ js ''===== PAGE '' @ decimal k @ js '' ====='' @ [10, 10]"

text \<open>A slot of \<open>pageResults\<close> that was never written prints as \<open>undefined\<close>.\<close>

fun render :: "jsstring option \<Rightarrow> jsstring" where
  "render None = js ''undefined''"
| "render (Some s) = s"

text \<open>The loop of lines 250 to 255, from index \<open>i\<close> on, with the text built so far.\<close>

function assemble_from :: "bool \<Rightarrow> jsstring option list \<Rightarrow> nat \<Rightarrow> jsstring \<Rightarrow> jsstring" where
  "assemble_from markers prs i acc =
     (if i < length prs
      then assemble_from markers prs (i + 1)
             (acc @ (if markers then page_marker (i + 1) @ render (prs ! i)
                     else (if i \<noteq> 0 then [10, 10] else []) @ render (prs ! i)))
      else acc)"
  by pat_completeness auto
termination
  by (relation "measure (\<lambda>(m, prs, i, t). length prs - i)") auto

declare assemble_from.simps [simp del]

subsection \<open>The run\<close>

record result =
  r_success :: bool
  r_text :: jsstring
  r_pages :: nat
  r_length :: nat

text \<open>
  The \<open>try\<close> block of \<open>_runOcrProcessingPipeline\<close> up to line 258: what it has done to the
  world when control leaves it, and the text and page count it has assembled, or the
  error some step raised; and the calls that the tasks still running make after control
  has left the block.
\<close>

definition tryBlock ::
  "env \<Rightarrow> bool \<Rightarrow> event list \<Rightarrow> world \<times> (jsstring \<times> nat) completion \<times> call list" where
  "tryBlock env includeMarkers evs =
     (case do_mkdir env 0 \<lparr>calls = [], ws_exists = False\<rparr> of
        (w1, Some e) \<Rightarrow> (w1, Raised e, [])
      | (w1, None) \<Rightarrow>
     (case do_mkdir env 1 w1 of
        (w2, Some e) \<Rightarrow> (w2, Raised e, [])
      | (w2, None) \<Rightarrow>
     (let w3 = w2\<lparr>calls := calls w2 @ [WriteFile]\<rparr> in
      case write_res env of
        Some e \<Rightarrow> (w3, Raised e, [])
      | None \<Rightarrow>
     (case convertPdfToPngImages env evs w3 of
        (w4, Pending, late) \<Rightarrow> (w4, Pending, late)
      | (w4, Raised e, late) \<Rightarrow> (w4, Raised e, late)
      | (w4, Returned (pageImages, rest), late) \<Rightarrow>
     (case await_pipeline env (pstart env (length pageImages)) rest of
        (ps, rest') \<Rightarrow>
          if \<not> psettled ps then (w4\<lparr>calls := calls w4 @ pcalls ps\<rparr>, Pending, [])
          else case rejection ps of
                 Some e \<Rightarrow>
                   (let ps' = pipeline_woken env ps
                    in (w4\<lparr>calls := calls w4 @ pcalls ps'\<rparr>, Raised e,
                        pipeline_stragglers env ps' rest'))
               | None \<Rightarrow>
                   (w4\<lparr>calls := calls w4 @ pcalls ps\<rparr>,
                    Returned (assemble_from includeMarkers (pageResults ps) 0 [],
                              length (pageResults ps)), []))))))"

definition tryBody :: "env \<Rightarrow> bool \<Rightarrow> event list \<Rightarrow> world \<times> (jsstring \<times> nat) completion" where
  "tryBody env includeMarkers evs =
     (case tryBlock env includeMarkers evs of (w, out, late) \<Rightarrow> (w, out))"

definition stragglers :: "env \<Rightarrow> bool \<Rightarrow> event list \<Rightarrow> call list" where
  "stragglers env includeMarkers evs =
     (case tryBlock env includeMarkers evs of (w, out, late) \<Rightarrow> late)"

text \<open>The \<open>catch\<close> block: remove the session directory, then throw the error caught.\<close>

definition cleanup_and_rethrow :: "env \<Rightarrow> nat \<Rightarrow> error \<Rightarrow> world \<Rightarrow> world \<times> result completion" where
  "cleanup_and_rethrow env k e w =
     (case rm_res env k of
        None \<Rightarrow> (w\<lparr>calls := calls w @ [Rm], ws_exists := False\<rparr>, Raised e)
      | Some e' \<Rightarrow> (w\<lparr>calls := calls w @ [Rm]\<rparr>, Raised e'))"

text \<open>
  \<open>_runOcrProcessingPipeline\<close>. The removal of line 260 is inside \<open>try\<close>: when it rejects,
  the \<open>catch\<close> block runs with its error. The world that is returned holds every call of
  the run: after a rejection, the calls of the \<open>try\<close> block, the removal that the \<open>catch\<close>
  block starts, and then the calls of the tasks that are still running.
\<close>

definition runOcrProcessingPipeline ::
  "env \<Rightarrow> bool \<Rightarrow> event list \<Rightarrow> world \<times> result completion" where
  "runOcrProcessingPipeline env includeMarkers evs =
     (case tryBody env includeMarkers evs of
        (w, Pending) \<Rightarrow> (w, Pending)
      | (w, Raised e) \<Rightarrow>
          (case cleanup_and_rethrow env 0 e w of
             (w', out) \<Rightarrow> (w'\<lparr>calls := calls w' @ stragglers env includeMarkers evs\<rparr>, out))
      | (w, Returned (tx, n)) \<Rightarrow>
          (case rm_res env 0 of
             None \<Rightarrow>
               (w\<lparr>calls := calls w @ [Rm], ws_exists := False\<rparr>,
                Returned \<lparr>r_success = True, r_text = trim tx, r_pages = n,
                          r_length = length (trim tx)\<rparr>)
           | Some e \<Rightarrow> cleanup_and_rethrow env 1 e (w\<lparr>calls := calls w @ [Rm]\<rparr>)))"

subsection \<open>Notions for the statements\<close>

text \<open>
  The normalised text of page \<open>i\<close> (index from 0), the stretch of the assembled text that
  belongs to it, and the pages of a document put together in page order.
\<close>

definition page_text :: "env \<Rightarrow> nat \<Rightarrow> jsstring" where
  "page_text env i = (case ocr_body env i of Inr t \<Rightarrow> t | Inl _ \<Rightarrow> [])"

definition segment :: "bool \<Rightarrow> nat \<Rightarrow> jsstring \<Rightarrow> jsstring" where
  "segment markers i t =
     (if markers then [10, 10] @ js ''===== PAGE '' @ decimal (i + 1) @ js '' ====='' @ [10, 10] @ t
      else (if i = 0 then [] else [10, 10]) @ t)"

definition pages_in_order :: "env \<Rightarrow> bool \<Rightarrow> nat \<Rightarrow> jsstring" where
  "pages_in_order env markers n = concat (map (\<lambda>i. segment markers i (page_text env i)) [0..<n])"

text \<open>
  What a claim about the reported page count says of the trimmed output of the page
  counter. The output is \<^emph>\<open>numeric\<close> when it is a run of decimal digits after at most one
  sign, and its value is then the integer that the numeral denotes. It has a \<^emph>\<open>leading
  number\<close> when, after at most one sign, it starts with a digit, whatever comes behind the
  digits; an output that is missing (empty) has none.
\<close>

definition is_digit :: "nat \<Rightarrow> bool" where
  "is_digit c = (48 \<le> c \<and> c \<le> 57)"

definition unsigned :: "jsstring \<Rightarrow> jsstring" where
  "unsigned out = (case out of c # r \<Rightarrow> if c = 43 \<or> c = 45 then r else out | [] \<Rightarrow> [])"

definition negative :: "jsstring \<Rightarrow> bool" where
  "negative out = (case out of c # _ \<Rightarrow> c = 45 | [] \<Rightarrow> False)"

definition numeric :: "jsstring \<Rightarrow> bool" where
  "numeric out = (unsigned out \<noteq> [] \<and> list_all is_digit (unsigned out))"

definition leading_number :: "jsstring \<Rightarrow> bool" where
  "leading_number out = (case unsigned out of c # _ \<Rightarrow> is_digit c | [] \<Rightarrow> False)"

definition digits_value :: "jsstring \<Rightarrow> nat" where
  "digits_value ds = foldl (\<lambda>a c. a * 10 + (c - 48)) 0 ds"

definition leading_value :: "jsstring \<Rightarrow> int" where
  "leading_value out =
     (if negative out then - 1 else 1) * int (digits_value (takeWhile is_digit (unsigned out)))"

definition hex_prefixed :: "jsstring \<Rightarrow> bool" where
  "hex_prefixed out =
     (case unsigned out of a # b # _ \<Rightarrow> a = 48 \<and> (b = 120 \<or> b = 88) | _ \<Rightarrow> False)"

text \<open>The invariant of the enhancement and recognition phase.\<close>

definition pinv :: "env \<Rightarrow> nat \<Rightarrow> pstate \<Rightarrow> bool" where
  "pinv env n s \<longleftrightarrow>
     length (phases (enhanceLimiter s)) = n \<and> length (phases (ocrLimiter s)) = n \<and>
     length (enhancedPromises s) = n \<and> length (begun s) = n \<and> length (pageResults s) = n \<and>
     queue_ok (enhanceLimiter s) \<and> queue_ok (ocrLimiter s) \<and>
     (\<forall>i<n. begun s ! i \<longrightarrow>
        enhancedPromises s ! i \<and> (phases (ocrLimiter s) ! i = Holding \<or> (\<exists>r. phases (ocrLimiter s) ! i = Done r))) \<and>
     (\<forall>i<n. \<forall>r. phases (ocrLimiter s) ! i = Done r \<longrightarrow> begun s ! i) \<and>
     (\<forall>i<n. enhancedPromises s ! i \<longrightarrow> phases (enhanceLimiter s) ! i = Done None) \<and>
     (\<forall>i. Recognize i \<in> set (pcalls s) \<longrightarrow> i < n \<and> begun s ! i) \<and>
     (\<forall>i<n. phases (ocrLimiter s) ! i = Done None \<longrightarrow>
        (\<exists>t. ocr_body env i = Inr t \<and> pageResults s ! i = Some t))"

section \<open>Concrete runs\<close>

text \<open>
  A document of three pages whose recognised texts are \<open>"A"\<close>, nothing, and \<open>"C\r\n"\<close>, with
  every collaborator succeeding, and two schedules for it: in \<open>pipe_a\<close> the pages are
  recognised in the order 1, 2, 3, in \<open>pipe_b\<close> in the order 3, 2, 1.
\<close>

definition files3 :: "jsstring list" where
  "files3 = [js ''page-1.png'', js ''page-2.png'', js ''page-3.png'']"

definition env3 :: env where
  "env3 = \<lparr>mkdir_res = (\<lambda>_. None), write_res = None, show_res = Inr (js ''3'' @ [10]),
           draw_res = (\<lambda>_. None), list_res = Inr files3,
           enhance_res = (\<lambda>_. None), client = True, read_res = (\<lambda>_. None),
           ocr_res = (\<lambda>i. Inr (Document (if i = 0 then Some (js ''A'') else if i = 1 then None
                                            else Some (js ''C'' @ [13, 10])))),
           rm_res = (\<lambda>_. None), conc_pdf = Finite 2, conc_enh = Finite 2, conc_ocr = Finite 3\<rparr>"

definition draw3 :: "event list" where
  "draw3 = [DrawSettle 0, DrawResume 2, DrawSettle 1, DrawSettle 2]"

definition pipe_a :: "event list" where
  "pipe_a = [EnhSettle 0, EnhResume 2, OcrStart 0, EnhSettle 1, OcrStart 1, OcrSettle 0,
     EnhSettle 2, OcrSettle 1, OcrStart 2, OcrSettle 2]"

definition pipe_b :: "event list" where
  "pipe_b = [EnhSettle 1, EnhResume 2, EnhSettle 2, OcrStart 2, OcrSettle 2, OcrStart 1,
     EnhSettle 0, OcrSettle 1, OcrStart 0, OcrSettle 0]"

definition done3 :: "call list \<Rightarrow> pstate" where
  "done3 cs =
     \<lparr>enhanceLimiter = \<lparr>limit = Finite 2, active = 0, queue = [], phases = [Done None, Done None, Done None]\<rparr>,
      ocrLimiter = \<lparr>limit = Finite 3, active = 0, queue = [], phases = [Done None, Done None, Done None]\<rparr>,
      enhancedPromises = [True, True, True], begun = [True, True, True],
      pageResults = [Some (js ''A''), Some [], Some (js ''C'')], rejection = None,
      pcalls = cs\<rparr>"

definition result3 :: result where
  "result3 = \<lparr>r_success = True, r_text = [65, 10, 10, 10, 10, 67], r_pages = 3, r_length = 6\<rparr>"

text \<open>
  The same document when page 1 is enhanced and its recognition has started, and the
  continuation of the recognition task of page 2 has been tried.
\<close>

definition mid3 :: pstate where
  "mid3 = foldl (pstep env3) (pstart env3 3) [EnhSettle 0, OcrStart 0, OcrStart 1]"

text \<open>A document of one page whose recognised text is \<open>"Hello"\<close>.\<close>

definition files1 :: "jsstring list" where
  "files1 = [js ''page-1.png'']"

definition env1 :: env where
  "env1 = \<lparr>mkdir_res = (\<lambda>_. None), write_res = None, show_res = Inr (js ''1'' @ [10]),
           draw_res = (\<lambda>_. None), list_res = Inr files1,
           enhance_res = (\<lambda>_. None), client = True, read_res = (\<lambda>_. None),
           ocr_res = (\<lambda>_. Inr (Document (Some (js ''Hello'')))),
           rm_res = (\<lambda>_. None), conc_pdf = Finite 1, conc_enh = Finite 1, conc_ocr = Finite 1\<rparr>"

definition draw1 :: "event list" where
  "draw1 = [DrawSettle 0]"

definition pipe1 :: "event list" where
  "pipe1 = [EnhSettle 0, OcrStart 0, OcrSettle 0]"

definition result1 :: result where
  "result1 = \<lparr>r_success = True, r_text = js ''===== PAGE 1 ====='' @ [10, 10] @ js ''Hello'',
               r_pages = 1, r_length = 25\<rparr>"

text \<open>
  The three-page document when the conversion of page 1 fails, with one conversion at a
  time: the failing task wakes the task of page 2, which starts before the \<open>catch\<close> block
  runs; the task of page 3 starts after the removal of the session directory.
\<close>

definition env3d :: env where
  "env3d = env3\<lparr>draw_res := (\<lambda>p. if p = 1 then Some (External 3) else None),
                 conc_pdf := Finite 1\<rparr>"

definition draw3d :: "event list" where
  "draw3d = [DrawSettle 0, DrawResume 1, DrawSettle 1, DrawResume 2]"

text \<open>
  The three-page document when the enhancement of page 1 fails: the failing task wakes
  the enhancement of page 3, which starts before the \<open>catch\<close> block runs; page 2 is enhanced
  and its recognition request is made after the removal of the session directory.
\<close>

definition env3e :: env where
  "env3e = env3\<lparr>enhance_res := (\<lambda>i. if i = 0 then Some (External 4) else None)\<rparr>"

definition pipe3e :: "event list" where
  "pipe3e = [EnhSettle 0, EnhResume 2, EnhSettle 1, OcrStart 1]"

text \<open>The one-page document when the page counter prints \<open>"1 page"\<close>.\<close>

definition env1p :: env where
  "env1p = env1\<lparr>show_res := Inr (js ''1 page'' @ [10])\<rparr>"

section \<open>Properties of the text normaliser\<close>


lemma contains_drop: "contains (p # ps) (drop k s) \<Longrightarrow> contains (p # ps) s"
proof (induction s arbitrary: k)
  case Nil then show ?case by simp
next
  case (Cons c cs)
  show ?case
  proof (cases k)
    case 0 with Cons.prems show ?thesis by simp
  next
    case (Suc j)
    with Cons.prems have "contains (p # ps) (drop j cs)" by simp
    then have "contains (p # ps) cs" by (rule Cons.IH)
    then show ?thesis by simp
  qed
qed

lemma starts_with_append: "starts_with ps s \<Longrightarrow> starts_with ps (s @ t)"
  by (induction ps s rule: starts_with.induct) auto

lemma contains_append1: "contains (p # ps) s \<Longrightarrow> contains (p # ps) (s @ t)"
proof (induction s)
  case Nil then show ?case by simp
next
  case (Cons c cs)
  from Cons.prems have "starts_with (p # ps) (c # cs) \<or> contains (p # ps) cs" by simp
  then show ?case
  proof
    assume "starts_with (p # ps) (c # cs)"
    then have "starts_with (p # ps) ((c # cs) @ t)" by (rule starts_with_append)
    then show ?thesis by simp
  next
    assume "contains (p # ps) cs"
    then have "contains (p # ps) (cs @ t)" by (rule Cons.IH)
    then show ?thesis by simp
  qed
qed

lemma contains_take: "contains (p # ps) (take k s) \<Longrightarrow> contains (p # ps) s"
  using contains_append1[of p ps "take k s" "drop k s"] by simp

lemma contains_dropWhile: "contains (p # ps) (dropWhile f s) \<Longrightarrow> contains (p # ps) s"
  using contains_drop[of p ps "length (takeWhile f s)" s] by (simp add: dropWhile_eq_drop)

lemma rev_dropWhile_rev:
  "rev (dropWhile f (rev s)) = take (length s - length (takeWhile f (rev s))) s"
  by (simp add: dropWhile_eq_drop rev_drop)

lemma contains_rev_dropWhile_rev:
  "contains (p # ps) (rev (dropWhile f (rev s))) \<Longrightarrow> contains (p # ps) s"
proof -
  have "rev (dropWhile f (rev s)) = take (length s - length (takeWhile f (rev s))) s"
    by (rule rev_dropWhile_rev)
  then show "contains (p # ps) (rev (dropWhile f (rev s))) \<Longrightarrow> contains (p # ps) s"
    using contains_take by metis
qed

lemma contains_trim: "contains (p # ps) (trim s) \<Longrightarrow> contains (p # ps) s"
  unfolding trim_def by (blast dest: contains_rev_dropWhile_rev contains_dropWhile)

lemma replace_all_id:
  assumes m: "\<And>u. m u \<noteq> None \<Longrightarrow> contains (p # ps) u"
  shows "\<not> contains (p # ps) s \<Longrightarrow> replace_all m r s = s"
proof (induction s)
  case Nil then show ?case by simp
next
  case (Cons c cs)
  from Cons.prems m have "m (c # cs) = None" by blast
  moreover have "replace_all m r cs = cs" using Cons by simp
  ultimately show ?case by simp
qed

lemma length_replace_all:
  "(\<forall>u k. m u = Some k \<longrightarrow> length r \<le> k \<and> k \<le> length u) \<Longrightarrow>
   length (replace_all m r s) \<le> length s"
proof (induction m r s rule: replace_all.induct)
  case (1 m r) then show ?case by simp
next
  case (2 m r x xs)
  show ?case
  proof (cases "m (x # xs)")
    case None
    with 2 show ?thesis by simp
  next
    case (Some n)
    show ?thesis
    proof (cases n)
      case 0
      with Some 2 show ?thesis by simp
    next
      case (Suc k)
      with Some 2 have "length (replace_all m r (drop k xs)) \<le> length xs - k" by simp
      moreover have "length r \<le> Suc k \<and> Suc k \<le> Suc (length xs)"
        using "2.prems" Some Suc by fastforce
      ultimately show ?thesis using Some Suc by simp arith
    qed
  qed
qed

lemma lf_not_blank: "is_lf c \<Longrightarrow> \<not> is_blank c"
  by (simp add: is_lf_def is_blank_def)

lemma replace_crlf_Nil: "replace_crlf [] = []"
  by (simp add: replace_crlf_def)

lemma replace_crlf_single: "replace_crlf [a] = [a]"
  by (simp add: replace_crlf_def match_crlf_def)

lemma replace_crlf_Cons2:
  "replace_crlf (a # b # xs) =
     (if is_cr a \<and> is_lf b then 10 # replace_crlf xs else a # replace_crlf (b # xs))"
  by (simp add: replace_crlf_def match_crlf_def numeral_2_eq_2)

lemma match_blanks_lf_Cons:
  "match_blanks_lf (x # xs) =
     (if is_blank x \<and> lf_after_blanks xs then Some (Suc (Suc (length (takeWhile is_blank xs)))) else None)"
  by (simp add: match_blanks_lf_def lf_after_blanks_def Let_def dropWhile_eq_drop)

lemma replace_blanks_lf_Nil: "replace_blanks_lf [] = []"
  by (simp add: replace_blanks_lf_def)

lemma replace_blanks_lf_Cons:
  "replace_blanks_lf (x # xs) =
     (if is_blank x \<and> lf_after_blanks xs
      then 10 # replace_blanks_lf (tl (dropWhile is_blank xs))
      else x # replace_blanks_lf xs)"
  by (simp add: replace_blanks_lf_def match_blanks_lf_Cons dropWhile_eq_drop drop_Suc tl_drop)

lemma match_lf3_Cons:
  "match_lf3 (x # xs) =
     (if is_lf x \<and> 2 \<le> length (takeWhile is_lf xs) then Some (Suc (length (takeWhile is_lf xs))) else None)"
  by (auto simp add: match_lf3_def Let_def)

lemma replace_lf3_Nil: "replace_lf3 [] = []"
  by (simp add: replace_lf3_def)

lemma replace_lf3_Cons:
  "replace_lf3 (x # xs) =
     (if is_lf x \<and> 2 \<le> length (takeWhile is_lf xs)
      then 10 # 10 # replace_lf3 (dropWhile is_lf xs)
      else x # replace_lf3 xs)"
  by (simp add: replace_lf3_def match_lf3_Cons dropWhile_eq_drop)


subsection \<open>Heads of stage outputs\<close>

lemma replace_blanks_lf_head:
  "starts_with [is_lf] (replace_blanks_lf xs) \<Longrightarrow> lf_after_blanks xs"
proof (cases xs)
  case Nil
  assume "starts_with [is_lf] (replace_blanks_lf xs)"
  with Nil show ?thesis by (simp add: replace_blanks_lf_Nil)
next
  case (Cons x xs')
  assume h: "starts_with [is_lf] (replace_blanks_lf xs)"
  show ?thesis
  proof (cases "is_blank x \<and> lf_after_blanks xs'")
    case True
    then show ?thesis using Cons by (simp add: lf_after_blanks_def)
  next
    case False
    with h Cons have "is_lf x" by (simp add: replace_blanks_lf_Cons)
    then show ?thesis using Cons by (simp add: lf_after_blanks_def lf_not_blank)
  qed
qed

lemma replace_blanks_lf_post: "\<not> contains [is_blank, is_lf] (replace_blanks_lf xs)"
proof (induction xs rule: length_induct)
  case (1 xs)
  show ?case
  proof (cases xs)
    case Nil then show ?thesis by (simp add: replace_blanks_lf_Nil)
  next
    case (Cons x xs')
    show ?thesis
    proof (cases "is_blank x \<and> lf_after_blanks xs'")
      case True
      have "length (tl (dropWhile is_blank xs')) < length xs"
        using Cons length_dropWhile_le[of is_blank xs'] by simp
      with 1 have "\<not> contains [is_blank, is_lf] (replace_blanks_lf (tl (dropWhile is_blank xs')))"
        by blast
      moreover have "replace_blanks_lf xs = 10 # replace_blanks_lf (tl (dropWhile is_blank xs'))"
        using True Cons by (simp add: replace_blanks_lf_Cons)
      moreover have "\<not> is_blank 10" by (simp add: is_blank_def)
      ultimately show ?thesis by simp
    next
      case False
      have ih: "\<not> contains [is_blank, is_lf] (replace_blanks_lf xs')"
        using 1 Cons by simp
      have "\<not> (is_blank x \<and> starts_with [is_lf] (replace_blanks_lf xs'))"
        using False replace_blanks_lf_head by blast
      then have "\<not> starts_with [is_blank, is_lf] (x # replace_blanks_lf xs')"
        by simp
      moreover have "replace_blanks_lf xs = x # replace_blanks_lf xs'"
        using False Cons by (auto simp add: replace_blanks_lf_Cons)
      ultimately show ?thesis using ih by (simp del: starts_with.simps)
    qed
  qed
qed

lemma replace_lf3_head:
  "starts_with [is_lf] (replace_lf3 xs) \<Longrightarrow> starts_with [is_lf] xs"
  by (cases xs) (auto simp: replace_lf3_Nil replace_lf3_Cons split: if_splits)

lemma replace_lf3_head2:
  "starts_with [is_lf, is_lf] (replace_lf3 xs) \<Longrightarrow> starts_with [is_lf, is_lf] xs"
proof (cases xs)
  case Nil
  assume "starts_with [is_lf, is_lf] (replace_lf3 xs)"
  with Nil show ?thesis by (simp add: replace_lf3_Nil)
next
  case (Cons x xs')
  assume h: "starts_with [is_lf, is_lf] (replace_lf3 xs)"
  show ?thesis
  proof (cases "is_lf x \<and> 2 \<le> length (takeWhile is_lf xs')")
    case True
    then have "xs' \<noteq> []" by auto
    then obtain y ys where "xs' = y # ys" by (cases xs') auto
    with True have "is_lf y" by (auto split: if_splits)
    then show ?thesis using Cons True \<open>xs' = y # ys\<close> by simp
  next
    case False
    with h Cons have "is_lf x \<and> starts_with [is_lf] (replace_lf3 xs')"
      by (simp add: replace_lf3_Cons)
    then have "is_lf x \<and> starts_with [is_lf] xs'" using replace_lf3_head by blast
    then show ?thesis using Cons by (cases xs') auto
  qed
qed

lemma dropWhile_not_starts: "\<not> starts_with [p] (dropWhile p xs)"
  by (induction xs) auto

lemma starts3_takeWhile:
  "starts_with [is_lf, is_lf, is_lf] (x # xs) \<longleftrightarrow> is_lf x \<and> 2 \<le> length (takeWhile is_lf xs)"
proof (cases xs)
  case Nil then show ?thesis by simp
next
  case (Cons y ys)
  then show ?thesis by (cases ys) auto
qed

lemma replace_lf3_post: "\<not> contains [is_lf, is_lf, is_lf] (replace_lf3 xs)"
proof (induction xs rule: length_induct)
  case (1 xs)
  show ?case
  proof (cases xs)
    case Nil then show ?thesis by (simp add: replace_lf3_Nil)
  next
    case (Cons x xs')
    show ?thesis
    proof (cases "is_lf x \<and> 2 \<le> length (takeWhile is_lf xs')")
      case True
      let ?rest = "dropWhile is_lf xs'"
      have "length ?rest < length xs"
        using Cons length_dropWhile_le[of is_lf xs'] by simp
      with 1 have ih: "\<not> contains [is_lf, is_lf, is_lf] (replace_lf3 ?rest)" by blast
      have nh: "\<not> starts_with [is_lf] (replace_lf3 ?rest)"
        using replace_lf3_head dropWhile_not_starts by blast
      have "\<not> starts_with [is_lf, is_lf, is_lf] (10 # 10 # replace_lf3 ?rest)"
        using nh by simp
      moreover have "\<not> starts_with [is_lf, is_lf, is_lf] (10 # replace_lf3 ?rest)"
        using nh by (cases "replace_lf3 ?rest") auto
      moreover have "replace_lf3 xs = 10 # 10 # replace_lf3 ?rest"
        using True Cons by (simp add: replace_lf3_Cons)
      ultimately show ?thesis using ih by (simp del: starts_with.simps)
    next
      case False
      have ih: "\<not> contains [is_lf, is_lf, is_lf] (replace_lf3 xs')"
        using 1 Cons by simp
      have "\<not> starts_with [is_lf, is_lf, is_lf] (x # replace_lf3 xs')"
      proof
        assume "starts_with [is_lf, is_lf, is_lf] (x # replace_lf3 xs')"
        then have "is_lf x" and "starts_with [is_lf, is_lf] (replace_lf3 xs')" by simp_all
        then have "starts_with [is_lf, is_lf, is_lf] (x # xs')"
          using replace_lf3_head2 by simp
        with False show False by (simp only: starts3_takeWhile)
      qed
      moreover have "replace_lf3 xs = x # replace_lf3 xs'"
        using False Cons by (auto simp add: replace_lf3_Cons)
      ultimately show ?thesis using ih by (simp del: starts_with.simps)
    qed
  qed
qed

lemma replace_lf3_keeps_blank_lf:
  "contains [is_blank, is_lf] (replace_lf3 xs) \<Longrightarrow> contains [is_blank, is_lf] xs"
proof (induction xs rule: length_induct)
  case (1 xs)
  show ?case
  proof (cases xs)
    case Nil with 1 show ?thesis by (simp add: replace_lf3_Nil)
  next
    case (Cons x xs')
    show ?thesis
    proof (cases "is_lf x \<and> 2 \<le> length (takeWhile is_lf xs')")
      case True
      let ?rest = "dropWhile is_lf xs'"
      have len: "length ?rest < length xs"
        using Cons length_dropWhile_le[of is_lf xs'] by simp
      have "replace_lf3 xs = 10 # 10 # replace_lf3 ?rest"
        using True Cons by (simp add: replace_lf3_Cons)
      with "1.prems"
      have "contains [is_blank, is_lf] (10 # 10 # replace_lf3 ?rest)" by simp
      moreover have "\<not> is_blank 10" by (simp add: is_blank_def)
      ultimately have "contains [is_blank, is_lf] (replace_lf3 ?rest)" by simp
      with 1 len have "contains [is_blank, is_lf] ?rest" by blast
      then have "contains [is_blank, is_lf] xs'" by (rule contains_dropWhile)
      then show ?thesis using Cons by simp
    next
      case False
      have "replace_lf3 xs = x # replace_lf3 xs'"
        using False Cons by (auto simp add: replace_lf3_Cons)
      with "1.prems"
      have "contains [is_blank, is_lf] (x # replace_lf3 xs')" by simp
      then have "(is_blank x \<and> starts_with [is_lf] (replace_lf3 xs')) \<or>
                 contains [is_blank, is_lf] (replace_lf3 xs')" by simp
      then show ?thesis
      proof
        assume "is_blank x \<and> starts_with [is_lf] (replace_lf3 xs')"
        then have "is_blank x \<and> starts_with [is_lf] xs'" using replace_lf3_head by blast
        then show ?thesis using Cons by (cases xs') auto
      next
        assume "contains [is_blank, is_lf] (replace_lf3 xs')"
        with 1 Cons have "contains [is_blank, is_lf] xs'" by simp
        then show ?thesis using Cons by simp
      qed
    qed
  qed
qed

subsection \<open>Trimming\<close>

lemma dropWhile_id_hd: "xs \<noteq> [] \<Longrightarrow> \<not> P (hd xs) \<Longrightarrow> dropWhile P xs = xs"
  by (cases xs) auto

lemma dropWhile_rev_id: "xs \<noteq> [] \<Longrightarrow> \<not> P (last xs) \<Longrightarrow> dropWhile P (rev xs) = rev xs"
proof -
  assume a: "xs \<noteq> []" and b: "\<not> P (last xs)"
  have "rev xs \<noteq> []" using a by simp
  moreover have "\<not> P (hd (rev xs))" using a b by (simp add: hd_rev)
  ultimately show ?thesis by (rule dropWhile_id_hd)
qed

lemma dropWhile_all: "\<forall>c \<in> set xs. P c \<Longrightarrow> dropWhile P xs = []"
  by (induction xs) auto

lemma trimmed_trim: "trimmed (trim s)"
proof (cases "trim s = []")
  case True then show ?thesis by (simp add: trimmed_def)
next
  case False
  let ?d = "dropWhile is_ws s"
  let ?e = "dropWhile is_ws (rev ?d)"
  have ne: "?e \<noteq> []" using False by (simp add: trim_def)
  then have "\<not> is_ws (hd ?e)" by (simp add: hd_dropWhile)
  then have l: "\<not> is_ws (last (trim s))" using ne by (simp add: trim_def last_rev)
  have dne: "?d \<noteq> []"
  proof
    assume "?d = []"
    then have "?e = []" by (simp only: rev.simps dropWhile.simps)
    with ne show False by blast
  qed
  then have hd: "\<not> is_ws (hd ?d)" by (simp add: hd_dropWhile)
  have "trim s = take (length ?d - length (takeWhile is_ws (rev ?d))) ?d"
    unfolding trim_def by (rule rev_dropWhile_rev)
  then have "hd (trim s) = hd ?d" using False by (metis hd_take take_eq_Nil gr0I)
  with hd l show ?thesis by (simp add: trimmed_def)
qed

lemma trim_id: "trimmed s \<Longrightarrow> trim s = s"
proof (cases s)
  case Nil then show ?thesis by (simp add: trim_def)
next
  case (Cons c cs)
  assume "trimmed s"
  with Cons have h: "\<not> is_ws (hd s)" and l: "\<not> is_ws (last s)" by (simp_all add: trimmed_def)
  have "dropWhile is_ws s = s" using h Cons by simp
  moreover have "dropWhile is_ws (rev s) = rev s"
    using l Cons by (intro dropWhile_rev_id) simp_all
  ultimately show ?thesis by (simp add: trim_def)
qed

lemma trim_strips:
  assumes "\<forall>c \<in> set l. is_ws c" and "\<forall>c \<in> set r. is_ws c" and "trimmed m"
  shows "trim (l @ m @ r) = m"
proof (cases m)
  case Nil
  with assms have "\<forall>c \<in> set (l @ m @ r). is_ws c" by auto
  then have "dropWhile is_ws (l @ m @ r) = []" by (rule dropWhile_all)
  then have "trim (l @ m @ r) = []"
    unfolding trim_def by (simp only: rev.simps dropWhile.simps)
  then show ?thesis using Nil by blast
next
  case (Cons c cs)
  with assms(3) have h: "\<not> is_ws (hd m)" and la: "\<not> is_ws (last m)" by (simp_all add: trimmed_def)
  have "dropWhile is_ws (l @ m @ r) = dropWhile is_ws (m @ r)"
    by (rule dropWhile_append2) (use assms(1) in blast)
  moreover have "dropWhile is_ws (m @ r) = m @ r"
    by (rule dropWhile_id_hd) (use h Cons in simp_all)
  ultimately have 1: "dropWhile is_ws (l @ m @ r) = m @ r" by simp
  have "rev (m @ r) = rev r @ rev m" by simp
  moreover have "dropWhile is_ws (rev r @ rev m) = dropWhile is_ws (rev m)"
    by (rule dropWhile_append2) (use assms(2) in simp)
  moreover have "dropWhile is_ws (rev m) = rev m"
    using la Cons by (intro dropWhile_rev_id) simp_all
  ultimately show ?thesis using 1 by (simp add: trim_def)
qed

lemma length_trim: "length (trim s) \<le> length s"
proof -
  have "length (trim s) \<le> length (dropWhile is_ws s)"
    unfolding trim_def using length_dropWhile_le[of is_ws "rev (dropWhile is_ws s)"] by simp
  also have "\<dots> \<le> length s" by (rule length_dropWhile_le)
  finally show ?thesis .
qed

subsection \<open>Stage equations\<close>

lemma replace_crlf_split:
  "replace_crlf (xs @ 13 # 10 # ys) = replace_crlf xs @ 10 # replace_crlf ys"
proof (induction xs rule: length_induct)
  case (1 xs)
  show ?case
  proof (cases xs)
    case Nil
    then show ?thesis by (simp add: replace_crlf_Cons2 replace_crlf_Nil is_cr_def is_lf_def)
  next
    case (Cons a as)
    show ?thesis
    proof (cases as)
      case Nil
      with Cons show ?thesis
        by (simp add: replace_crlf_Cons2 replace_crlf_single is_cr_def is_lf_def)
    next
      case (Cons b bs)
      have ih1: "replace_crlf (bs @ 13 # 10 # ys) = replace_crlf bs @ 10 # replace_crlf ys"
        using "1.IH"[rule_format, of bs] \<open>xs = a # as\<close> Cons by simp
      have ih2: "replace_crlf ((b # bs) @ 13 # 10 # ys) = replace_crlf (b # bs) @ 10 # replace_crlf ys"
        using "1.IH"[rule_format, of "b # bs"] \<open>xs = a # as\<close> Cons by simp
      show ?thesis
      proof (cases "is_cr a \<and> is_lf b")
        case True
        then show ?thesis using \<open>xs = a # as\<close> Cons ih1 by (simp add: replace_crlf_Cons2)
      next
        case False
        then show ?thesis using \<open>xs = a # as\<close> Cons ih2 by (auto simp add: replace_crlf_Cons2)
      qed
    qed
  qed
qed

lemma last_in_set_not: "xs \<noteq> [] \<Longrightarrow> \<not> P (last xs) \<Longrightarrow> \<exists>x \<in> set xs. \<not> P x"
  using last_in_set by blast

lemma last_dropWhile_keep:
  "xs \<noteq> [] \<Longrightarrow> \<not> P (last xs) \<Longrightarrow> dropWhile P xs \<noteq> [] \<and> last (dropWhile P xs) = last xs"
proof (induction xs)
  case Nil then show ?case by simp
next
  case (Cons a as)
  show ?case
  proof (cases "as = []")
    case True with Cons.prems show ?thesis by simp
  next
    case False
    with Cons have "dropWhile P as \<noteq> [] \<and> last (dropWhile P as) = last as" by simp
    then show ?thesis using False by simp
  qed
qed

lemma dropWhile_append_keep:
  "xs \<noteq> [] \<Longrightarrow> \<not> P (last xs) \<Longrightarrow> dropWhile P (xs @ ys) = dropWhile P xs @ ys"
  using last_in_set_not[of xs P] by (auto intro: dropWhile_append1)

lemma takeWhile_append_keep:
  "xs \<noteq> [] \<Longrightarrow> \<not> P (last xs) \<Longrightarrow> takeWhile P (xs @ ys) = takeWhile P xs"
  using last_in_set_not[of xs P] by (auto intro: takeWhile_append1)

lemma lf_after_blanks_append:
  "xs \<noteq> [] \<Longrightarrow> \<not> is_blank (last xs) \<Longrightarrow> lf_after_blanks (xs @ ys) = lf_after_blanks xs"
proof -
  assume a: "xs \<noteq> []" "\<not> is_blank (last xs)"
  then have "dropWhile is_blank (xs @ ys) = dropWhile is_blank xs @ ys"
    by (rule dropWhile_append_keep)
  moreover have "dropWhile is_blank xs \<noteq> []" using last_dropWhile_keep[of xs is_blank] a by simp
  ultimately show ?thesis by (cases "dropWhile is_blank xs") (simp_all add: lf_after_blanks_def)
qed

lemma replace_blanks_lf_blank_run:
  assumes "\<forall>c \<in> set bs. is_blank c"
  shows "replace_blanks_lf (bs @ 10 # ys) = 10 # replace_blanks_lf ys"
proof (cases bs)
  case Nil
  then show ?thesis by (simp add: replace_blanks_lf_Cons is_blank_def)
next
  case (Cons b bs')
  have nb: "\<not> is_blank 10" by (simp add: is_blank_def)
  have "dropWhile is_blank (bs' @ 10 # ys) = dropWhile is_blank (10 # ys)"
    by (rule dropWhile_append2) (use assms Cons in simp)
  then have d: "dropWhile is_blank (bs' @ 10 # ys) = 10 # ys" using nb by simp
  then have "lf_after_blanks (bs' @ 10 # ys)" by (simp add: lf_after_blanks_def is_lf_def)
  moreover have "is_blank b" using assms Cons by simp
  ultimately show ?thesis using Cons d by (simp add: replace_blanks_lf_Cons)
qed

lemma replace_blanks_lf_split:
  "\<forall>c \<in> set bs. is_blank c \<Longrightarrow> xs = [] \<or> \<not> is_blank (last xs) \<Longrightarrow>
   replace_blanks_lf (xs @ bs @ 10 # ys) = replace_blanks_lf xs @ 10 # replace_blanks_lf ys"
proof (induction xs rule: length_induct)
  case (1 xs)
  note bs = "1.prems"(1)
  show ?case
  proof (cases xs)
    case Nil
    then show ?thesis using replace_blanks_lf_blank_run[OF bs] by (simp add: replace_blanks_lf_Nil)
  next
    case (Cons x xs')
    let ?rest = "bs @ 10 # ys"
    have lastxs: "\<not> is_blank (last xs)" using "1.prems"(2) Cons by simp
    show ?thesis
    proof (cases "is_blank x")
      case False
      have c: "xs' = [] \<or> \<not> is_blank (last xs')" using lastxs Cons by auto
      have "replace_blanks_lf (xs' @ ?rest) = replace_blanks_lf xs' @ 10 # replace_blanks_lf ys"
        using "1.IH"[rule_format, of xs'] Cons bs c by simp
      then show ?thesis using False Cons by (simp add: replace_blanks_lf_Cons)
    next
      case True
      have ne: "xs' \<noteq> []" using True lastxs Cons by auto
      then have l': "\<not> is_blank (last xs')" using lastxs Cons by simp
      have lfa: "lf_after_blanks (xs' @ ?rest) = lf_after_blanks xs'"
        using ne l' by (rule lf_after_blanks_append)
      show ?thesis
      proof (cases "lf_after_blanks xs'")
        case False
        have "replace_blanks_lf (xs' @ ?rest) = replace_blanks_lf xs' @ 10 # replace_blanks_lf ys"
          using "1.IH"[rule_format, of xs'] Cons bs l' by simp
        then show ?thesis using False lfa Cons by (simp add: replace_blanks_lf_Cons)
      next
        case lf: True
        let ?d = "dropWhile is_blank xs'"
        have dk: "?d \<noteq> [] \<and> last ?d = last xs'" using ne l' by (rule last_dropWhile_keep)
        have da: "dropWhile is_blank (xs' @ ?rest) = ?d @ ?rest"
          using ne l' by (rule dropWhile_append_keep)
        have tl_eq: "tl (dropWhile is_blank (xs' @ ?rest)) = tl ?d @ ?rest"
          using da dk by simp
        have len: "length (tl ?d) < length xs"
          using Cons length_dropWhile_le[of is_blank xs'] by simp
        have c: "tl ?d = [] \<or> \<not> is_blank (last (tl ?d))"
          using dk l' by (cases "tl ?d = []") (simp_all add: last_tl)
        have "replace_blanks_lf (tl ?d @ ?rest) = replace_blanks_lf (tl ?d) @ 10 # replace_blanks_lf ys"
          using "1.IH"[rule_format, of "tl ?d"] len bs c by simp
        then show ?thesis using True lf lfa Cons tl_eq by (simp add: replace_blanks_lf_Cons)
      qed
    qed
  qed
qed

lemma replace_lf3_run:
  assumes "3 \<le> k" and "ys = [] \<or> \<not> is_lf (hd ys)"
  shows "replace_lf3 (replicate k 10 @ ys) = 10 # 10 # replace_lf3 ys"
proof -
  from assms(1) obtain j where k: "k = Suc j" and j: "2 \<le> j" by (cases k) auto
  have lf: "is_lf 10" by (simp add: is_lf_def)
  have all: "\<forall>c \<in> set (replicate j 10). is_lf c" using lf by simp
  have dys: "dropWhile is_lf ys = ys" using assms(2) by (cases ys) auto
  have tys: "takeWhile is_lf ys = []" using assms(2) by (cases ys) auto
  have "takeWhile is_lf (replicate j 10 @ ys) = replicate j 10 @ takeWhile is_lf ys"
    by (rule takeWhile_append2) (use all in blast)
  then have t: "length (takeWhile is_lf (replicate j 10 @ ys)) = j" using tys by simp
  have "dropWhile is_lf (replicate j 10 @ ys) = dropWhile is_lf ys"
    by (rule dropWhile_append2) (use all in blast)
  then have d: "dropWhile is_lf (replicate j 10 @ ys) = ys" using dys by simp
  show ?thesis using k j t d lf by (simp add: replace_lf3_Cons)
qed

lemma replace_lf3_split:
  "3 \<le> k \<Longrightarrow> xs = [] \<or> \<not> is_lf (last xs) \<Longrightarrow> ys = [] \<or> \<not> is_lf (hd ys) \<Longrightarrow>
   replace_lf3 (xs @ replicate k 10 @ ys) = replace_lf3 xs @ 10 # 10 # replace_lf3 ys"
proof (induction xs rule: length_induct)
  case (1 xs)
  note k = "1.prems"(1) and ys = "1.prems"(3)
  let ?rest = "replicate k 10 @ ys"
  show ?case
  proof (cases xs)
    case Nil
    then show ?thesis using replace_lf3_run[OF k ys] by (simp add: replace_lf3_Nil)
  next
    case (Cons x xs')
    have lastxs: "\<not> is_lf (last xs)" using "1.prems"(2) Cons by simp
    show ?thesis
    proof (cases "is_lf x")
      case False
      have c: "xs' = [] \<or> \<not> is_lf (last xs')" using lastxs Cons by auto
      have "replace_lf3 (xs' @ ?rest) = replace_lf3 xs' @ 10 # 10 # replace_lf3 ys"
        using "1.IH"[rule_format, of xs'] Cons k ys c by simp
      then show ?thesis using False Cons by (simp add: replace_lf3_Cons)
    next
      case True
      have ne: "xs' \<noteq> []" using True lastxs Cons by auto
      then have l': "\<not> is_lf (last xs')" using lastxs Cons by simp
      have ta: "takeWhile is_lf (xs' @ ?rest) = takeWhile is_lf xs'"
        using ne l' by (rule takeWhile_append_keep)
      have da: "dropWhile is_lf (xs' @ ?rest) = dropWhile is_lf xs' @ ?rest"
        using ne l' by (rule dropWhile_append_keep)
      show ?thesis
      proof (cases "2 \<le> length (takeWhile is_lf xs')")
        case False
        have "replace_lf3 (xs' @ ?rest) = replace_lf3 xs' @ 10 # 10 # replace_lf3 ys"
          using "1.IH"[rule_format, of xs'] Cons k ys l' by simp
        then show ?thesis using False ta Cons by (simp add: replace_lf3_Cons)
      next
        case run: True
        let ?d = "dropWhile is_lf xs'"
        have dk: "?d \<noteq> [] \<and> last ?d = last xs'" using ne l' by (rule last_dropWhile_keep)
        have len: "length ?d < length xs"
          using Cons length_dropWhile_le[of is_lf xs'] by simp
        have "replace_lf3 (?d @ ?rest) = replace_lf3 ?d @ 10 # 10 # replace_lf3 ys"
          using "1.IH"[rule_format, of ?d] len k ys dk l' by simp
        then show ?thesis using True run ta da Cons by (simp add: replace_lf3_Cons)
      qed
    qed
  qed
qed

subsection \<open>Idempotence\<close>

lemma match_crlf_contains: "match_crlf u \<noteq> None \<Longrightarrow> contains [is_cr, is_lf] u"
  by (cases u) (auto simp: match_crlf_def split: list.splits if_splits)

lemma starts_blank_lf_run:
  "is_blank x \<Longrightarrow> lf_after_blanks xs \<Longrightarrow> contains [is_blank, is_lf] (x # xs)"
proof (induction xs arbitrary: x)
  case Nil then show ?case by (simp add: lf_after_blanks_def)
next
  case (Cons y ys)
  show ?case
  proof (cases "is_blank y")
    case True
    with Cons.prems have "lf_after_blanks ys" by (simp add: lf_after_blanks_def)
    with True Cons.IH have "contains [is_blank, is_lf] (y # ys)" by blast
    then show ?thesis by simp
  next
    case False
    with Cons.prems have "is_lf y" by (simp add: lf_after_blanks_def)
    with Cons.prems show ?thesis by simp
  qed
qed

lemma match_blanks_lf_contains: "match_blanks_lf u \<noteq> None \<Longrightarrow> contains [is_blank, is_lf] u"
proof (cases u)
  case Nil
  assume "match_blanks_lf u \<noteq> None"
  with Nil show ?thesis by (simp add: match_blanks_lf_def)
next
  case (Cons x xs)
  assume "match_blanks_lf u \<noteq> None"
  with Cons have "is_blank x \<and> lf_after_blanks xs"
    by (simp add: match_blanks_lf_Cons split: if_splits)
  then show ?thesis using Cons starts_blank_lf_run by blast
qed

lemma match_lf3_contains: "match_lf3 u \<noteq> None \<Longrightarrow> contains [is_lf, is_lf, is_lf] u"
proof (cases u)
  case Nil
  assume "match_lf3 u \<noteq> None"
  with Nil show ?thesis by (simp add: match_lf3_def)
next
  case (Cons x xs)
  assume "match_lf3 u \<noteq> None"
  with Cons have "is_lf x \<and> 2 \<le> length (takeWhile is_lf xs)"
    by (simp add: match_lf3_Cons split: if_splits)
  then have "starts_with [is_lf, is_lf, is_lf] (x # xs)" by (simp only: starts3_takeWhile)
  then show ?thesis using Cons by simp
qed

lemma replace_crlf_id: "\<not> contains [is_cr, is_lf] s \<Longrightarrow> replace_crlf s = s"
  unfolding replace_crlf_def by (rule replace_all_id) (rule match_crlf_contains)

lemma replace_blanks_lf_id: "\<not> contains [is_blank, is_lf] s \<Longrightarrow> replace_blanks_lf s = s"
  unfolding replace_blanks_lf_def by (rule replace_all_id) (rule match_blanks_lf_contains)

lemma replace_lf3_id: "\<not> contains [is_lf, is_lf, is_lf] s \<Longrightarrow> replace_lf3 s = s"
  unfolding replace_lf3_def by (rule replace_all_id) (rule match_lf3_contains)

lemma normalize_unfold:
  "normalizeExtractedText t = trim (replace_lf3 (replace_blanks_lf (replace_crlf t)))"
  by (simp add: normalizeExtractedText_def)

lemma normalize_no_blank_lf: "\<not> contains [is_blank, is_lf] (normalizeExtractedText t)"
  unfolding normalize_unfold
  using contains_trim replace_lf3_keeps_blank_lf replace_blanks_lf_post by blast

lemma normalize_no_lf3: "\<not> contains [is_lf, is_lf, is_lf] (normalizeExtractedText t)"
  unfolding normalize_unfold
  using contains_trim replace_lf3_post by blast

lemma normalize_trimmed: "trimmed (normalizeExtractedText t)"
  unfolding normalize_unfold by (rule trimmed_trim)

lemma normalize_fixed:
  assumes "\<not> contains [is_cr, is_lf] s" "\<not> contains [is_blank, is_lf] s"
    "\<not> contains [is_lf, is_lf, is_lf] s" "trimmed s"
  shows "normalizeExtractedText s = s"
  unfolding normalize_unfold
  using assms by (simp add: replace_crlf_id replace_blanks_lf_id replace_lf3_id trim_id)

lemma length_replace_crlf: "length (replace_crlf s) \<le> length s"
  unfolding replace_crlf_def
  by (rule length_replace_all) (auto simp: match_crlf_def split: list.splits if_splits)

lemma length_replace_blanks_lf: "length (replace_blanks_lf s) \<le> length s"
  unfolding replace_blanks_lf_def
proof (rule length_replace_all, intro allI impI)
  fix u k assume h: "match_blanks_lf u = Some k"
  let ?n = "length (takeWhile is_blank u)"
  from h have "0 < ?n" and "drop ?n u \<noteq> []" and k: "k = ?n + 1"
    by (auto simp: match_blanks_lf_def Let_def split: if_splits list.splits)
  then have "?n < length u" by simp
  with k \<open>0 < ?n\<close> show "length [10::nat] \<le> k \<and> k \<le> length u" by simp
qed

lemma length_replace_lf3: "length (replace_lf3 s) \<le> length s"
  unfolding replace_lf3_def
proof (rule length_replace_all, intro allI impI)
  fix u k assume h: "match_lf3 u = Some k"
  then have "3 \<le> k" and "k = length (takeWhile is_lf u)"
    by (auto simp: match_lf3_def Let_def split: if_splits)
  then show "length [10::nat, 10] \<le> k \<and> k \<le> length u"
    using length_takeWhile_le[of is_lf u] by simp
qed

lemma replace_crlf_shrinks:
  "contains [is_cr, is_lf] s \<Longrightarrow> length (replace_crlf s) < length s"
proof (induction s rule: length_induct)
  case (1 s)
  show ?case
  proof (cases s)
    case Nil with "1.prems" show ?thesis by simp
  next
    case (Cons a as)
    show ?thesis
    proof (cases as)
      case Nil with Cons "1.prems" show ?thesis by simp
    next
      case (Cons b bs)
      show ?thesis
      proof (cases "is_cr a \<and> is_lf b")
        case True
        then show ?thesis using \<open>s = a # as\<close> Cons length_replace_crlf[of bs]
          by (simp add: replace_crlf_Cons2)
      next
        case False
        with "1.prems" \<open>s = a # as\<close> Cons have "contains [is_cr, is_lf] (b # bs)" by auto
        then have "length (replace_crlf (b # bs)) < length (b # bs)"
          using "1.IH"[rule_format, of "b # bs"] \<open>s = a # as\<close> Cons by simp
        then show ?thesis using False \<open>s = a # as\<close> Cons by (auto simp add: replace_crlf_Cons2)
      qed
    qed
  qed
qed

lemma normalize_shrinks:
  assumes "contains [is_cr, is_lf] s"
  shows "length (normalizeExtractedText s) < length s"
proof -
  have "length (normalizeExtractedText s) \<le> length (replace_lf3 (replace_blanks_lf (replace_crlf s)))"
    unfolding normalize_unfold by (rule length_trim)
  also have "\<dots> \<le> length (replace_blanks_lf (replace_crlf s))" by (rule length_replace_lf3)
  also have "\<dots> \<le> length (replace_crlf s)" by (rule length_replace_blanks_lf)
  also have "\<dots> < length s" using assms by (rule replace_crlf_shrinks)
  finally show ?thesis .
qed

lemma set_replace_all: "set (replace_all m r s) \<subseteq> set s \<union> set r"
proof (induction m r s rule: replace_all.induct)
  case (1 m r) then show ?case by simp
next
  case (2 m r x xs)
  show ?case
  proof (cases "m (x # xs)")
    case None
    with 2 show ?thesis by auto
  next
    case (Some n)
    show ?thesis
    proof (cases n)
      case 0
      with Some 2 show ?thesis by auto
    next
      case (Suc k)
      with Some 2 have "set (replace_all m r (drop k xs)) \<subseteq> set (drop k xs) \<union> set r" by simp
      moreover have "set (drop k xs) \<subseteq> set xs" by (rule set_drop_subset)
      ultimately show ?thesis using Some Suc by auto
    qed
  qed
qed

lemma set_trim: "set (trim s) \<subseteq> set s"
proof -
  have "set (trim s) = set (dropWhile is_ws (rev (dropWhile is_ws s)))" by (simp add: trim_def)
  also have "\<dots> \<subseteq> set (rev (dropWhile is_ws s))" by (auto dest: set_dropWhileD)
  also have "\<dots> \<subseteq> set s" by (auto dest: set_dropWhileD)
  finally show ?thesis .
qed

lemma normalize_no_new_cr: "13 \<notin> set s \<Longrightarrow> 13 \<notin> set (normalizeExtractedText s)"
proof -
  assume a: "13 \<notin> set s"
  have "set (replace_crlf s) \<subseteq> set s \<union> {10}"
    using set_replace_all[of match_crlf "[10]" s] by (simp add: replace_crlf_def)
  moreover have "set (replace_blanks_lf (replace_crlf s)) \<subseteq> set (replace_crlf s) \<union> {10}"
    using set_replace_all[of match_blanks_lf "[10]"] by (simp add: replace_blanks_lf_def)
  moreover have "set (replace_lf3 (replace_blanks_lf (replace_crlf s)))
                 \<subseteq> set (replace_blanks_lf (replace_crlf s)) \<union> {10}"
    using set_replace_all[of match_lf3 "[10, 10]"] by (simp add: replace_lf3_def)
  moreover have "set (normalizeExtractedText s) \<subseteq> set (replace_lf3 (replace_blanks_lf (replace_crlf s)))"
    unfolding normalize_unfold by (rule set_trim)
  ultimately have "set (normalizeExtractedText s) \<subseteq> set s \<union> {10}" by blast
  with a show ?thesis by auto
qed

lemma contains_cr: "contains [is_cr, is_lf] t \<Longrightarrow> 13 \<in> set t"
  by (induction t) (auto simp: is_cr_def)

lemma replace_crlf_head:
  "starts_with [is_lf] (replace_crlf (b # bs)) \<Longrightarrow> is_lf b \<or> (is_cr b \<and> starts_with [is_lf] bs)"
proof (cases bs)
  case Nil then show "starts_with [is_lf] (replace_crlf (b # bs)) \<Longrightarrow> ?thesis"
    by (simp add: replace_crlf_single)
next
  case (Cons c cs)
  then show "starts_with [is_lf] (replace_crlf (b # bs)) \<Longrightarrow> ?thesis"
    by (auto simp: replace_crlf_Cons2 split: if_splits)
qed

lemma replace_crlf_post:
  "contains [is_cr, is_lf] (replace_crlf s) \<Longrightarrow> contains [is_cr, is_cr, is_lf] s"
proof (induction s rule: length_induct)
  case (1 s)
  show ?case
  proof (cases s)
    case Nil
    with "1.prems" show ?thesis by (simp add: replace_crlf_Nil)
  next
    case (Cons a as)
    show ?thesis
    proof (cases as)
      case Nil
      with Cons "1.prems" show ?thesis by (simp add: replace_crlf_single)
    next
      case (Cons b bs)
      note s = \<open>s = a # as\<close> Cons
      show ?thesis
      proof (cases "is_cr a \<and> is_lf b")
        case True
        then have "replace_crlf s = 10 # replace_crlf bs" using s by (simp add: replace_crlf_Cons2)
        moreover have "\<not> is_cr 10" by (simp add: is_cr_def)
        ultimately have "contains [is_cr, is_lf] (replace_crlf bs)" using "1.prems" by simp
        then have "contains [is_cr, is_cr, is_lf] bs"
          using "1.IH"[rule_format, of bs] s by simp
        then show ?thesis using s by simp
      next
        case False
        then have eq: "replace_crlf s = a # replace_crlf (b # bs)"
          using s by (auto simp add: replace_crlf_Cons2)
        with "1.prems" have "(is_cr a \<and> starts_with [is_lf] (replace_crlf (b # bs)))
            \<or> contains [is_cr, is_lf] (replace_crlf (b # bs))" by simp
        then show ?thesis
        proof
          assume h: "is_cr a \<and> starts_with [is_lf] (replace_crlf (b # bs))"
          with replace_crlf_head[of b bs] False have "is_cr b \<and> starts_with [is_lf] bs" by blast
          with h show ?thesis using s by (cases bs) simp_all
        next
          assume "contains [is_cr, is_lf] (replace_crlf (b # bs))"
          then have "contains [is_cr, is_cr, is_lf] (b # bs)"
            using "1.IH"[rule_format, of "b # bs"] s by simp
          then show ?thesis using s by simp
        qed
      qed
    qed
  qed
qed

lemmas eval_norm = normalizeExtractedText_def trim_def replace_crlf_def replace_blanks_lf_def
  replace_lf3_def match_crlf_def match_blanks_lf_def match_lf3_def is_blank_def is_lf_def
  is_cr_def is_ws_def Let_def trimmed_def

subsection \<open>The claims about the normaliser\<close>

text \<open>
  Claim C5, as stated, fails. The normaliser does not bring every line terminator to one
  convention: only a CR that stands immediately before a LF when the first replacement
  scans it is dropped. \<open>"a\r \nb"\<close> becomes \<open>"a\r\nb"\<close>, where a CR LF pair is left in the
  result, and the lone CR of \<open>"a\rb"\<close> stays. Nor is all white space before a line break
  stripped: a no-break space or a form feed before a LF stays, though \<open>trim\<close> counts both
  as white space.
\<close>

theorem line_terminators_counterexample:
  "normalizeExtractedText [97, 13, 32, 10, 98] = [97, 13, 10, 98]
   \<and> contains [is_cr, is_lf] (normalizeExtractedText [97, 13, 32, 10, 98])
   \<and> normalizeExtractedText [97, 13, 98] = [97, 13, 98]
   \<and> is_ws 160 \<and> normalizeExtractedText [97, 160, 10, 98] = [97, 160, 10, 98]
   \<and> is_ws 12 \<and> normalizeExtractedText [97, 12, 10, 98] = [97, 12, 10, 98]"
  by (simp add: eval_norm)

text \<open>
  Claim C5, amended. For every input string the normaliser is the composition of four
  stages. The first replaces, in one pass from the left, every CR LF pair by LF; a CR that
  is not followed by LF is kept, so the output of this stage still has a CR LF pair where
  the input had CR CR LF, and only for an input without CR is the final text without
  CR. The second removes every run of spaces and tabs (and no other white space) that
  stands immediately before a line feed. The third replaces every run of three or more
  line feeds (so every run of two or more blank lines, and with it every run of three or
  more) by exactly two line feeds, one blank line. The fourth removes white space from
  both ends of the result. A string without such a pair, such a run or such an end is
  left as it is. The final text has no space or tab before a line feed, no three line
  feeds in a row, and no white space at either end.
\<close>

theorem normalizeExtractedText_stages:
  "normalizeExtractedText t = trim (replace_lf3 (replace_blanks_lf (replace_crlf t)))
   \<and> replace_crlf (xs @ [13, 10] @ ys) = replace_crlf xs @ [10] @ replace_crlf ys
   \<and> (\<not> contains [is_cr, is_lf] u \<longrightarrow> replace_crlf u = u)
   \<and> (contains [is_cr, is_lf] (replace_crlf u) \<longrightarrow> contains [is_cr, is_cr, is_lf] u)
   \<and> (13 \<notin> set t \<longrightarrow> 13 \<notin> set (normalizeExtractedText t))
   \<and> ((\<forall>c \<in> set bs. is_blank c) \<and> (xs = [] \<or> \<not> is_blank (last xs)) \<longrightarrow>
        replace_blanks_lf (xs @ bs @ [10] @ ys) = replace_blanks_lf xs @ [10] @ replace_blanks_lf ys)
   \<and> (\<not> contains [is_blank, is_lf] u \<longrightarrow> replace_blanks_lf u = u)
   \<and> (3 \<le> k \<and> (xs = [] \<or> \<not> is_lf (last xs)) \<and> (ys = [] \<or> \<not> is_lf (hd ys)) \<longrightarrow>
        replace_lf3 (xs @ replicate k 10 @ ys) = replace_lf3 xs @ [10, 10] @ replace_lf3 ys)
   \<and> (\<not> contains [is_lf, is_lf, is_lf] u \<longrightarrow> replace_lf3 u = u)
   \<and> ((\<forall>c \<in> set l. is_ws c) \<and> (\<forall>c \<in> set r. is_ws c) \<and> trimmed m \<longrightarrow> trim (l @ m @ r) = m)
   \<and> \<not> contains [is_blank, is_lf] (normalizeExtractedText t)
   \<and> \<not> contains [is_lf, is_lf, is_lf] (normalizeExtractedText t)
   \<and> trimmed (normalizeExtractedText t)"
proof -
  have "replace_crlf (xs @ [13, 10] @ ys) = replace_crlf xs @ [10] @ replace_crlf ys"
    using replace_crlf_split[of xs ys] by simp
  moreover have "(\<forall>c \<in> set bs. is_blank c) \<and> (xs = [] \<or> \<not> is_blank (last xs)) \<longrightarrow>
        replace_blanks_lf (xs @ bs @ [10] @ ys) = replace_blanks_lf xs @ [10] @ replace_blanks_lf ys"
    using replace_blanks_lf_split[of bs xs ys] by simp
  moreover have "3 \<le> k \<and> (xs = [] \<or> \<not> is_lf (last xs)) \<and> (ys = [] \<or> \<not> is_lf (hd ys)) \<longrightarrow>
        replace_lf3 (xs @ replicate k 10 @ ys) = replace_lf3 xs @ [10, 10] @ replace_lf3 ys"
    using replace_lf3_split[of k xs ys] by simp
  moreover have "(\<forall>c \<in> set l. is_ws c) \<and> (\<forall>c \<in> set r. is_ws c) \<and> trimmed m \<longrightarrow> trim (l @ m @ r) = m"
    using trim_strips[of l r m] by blast
  moreover have "contains [is_cr, is_lf] (replace_crlf u) \<longrightarrow> contains [is_cr, is_cr, is_lf] u"
    using replace_crlf_post[of u] by blast
  moreover have "13 \<notin> set t \<longrightarrow> 13 \<notin> set (normalizeExtractedText t)"
    using normalize_no_new_cr[of t] by blast
  ultimately show ?thesis
    using normalize_unfold[of t] replace_crlf_id[of u] replace_blanks_lf_id[of u] replace_lf3_id[of u]
      normalize_no_blank_lf[of t] normalize_no_lf3[of t] normalize_trimmed[of t]
    by blast
qed

text \<open>
  The stages and the whole function on small strings: \<open>" a \r\n\t\n\n\nb\r\n"\<close> becomes
  \<open>"a\n\nb"\<close>; the first stage turns \<open>"\r\r\n"\<close> into \<open>"\r\n"\<close> and leaves \<open>"a\rb\n"\<close> alone;
  \<open>"a \nb"\<close>, which has no CR, becomes \<open>"a\nb"\<close>.
\<close>

theorem normalizeExtractedText_stages_witness:
  "normalizeExtractedText [32, 97, 32, 13, 10, 9, 10, 10, 10, 98, 13, 10] = [97, 10, 10, 98]
   \<and> replace_crlf ([97] @ [13, 10] @ [98]) = replace_crlf [97] @ [10] @ replace_crlf [98]
   \<and> replace_crlf [97, 13, 10, 98] = [97, 10, 98]
   \<and> \<not> contains [is_cr, is_lf] [97, 13, 98, 10] \<and> replace_crlf [97, 13, 98, 10] = [97, 13, 98, 10]
   \<and> replace_crlf [13, 13, 10] = [13, 10]
   \<and> contains [is_cr, is_lf] (replace_crlf [13, 13, 10]) \<and> contains [is_cr, is_cr, is_lf] [13, 13, 10]
   \<and> (13::nat) \<notin> set [97, 32, 10, 98] \<and> 13 \<notin> set (normalizeExtractedText [97, 32, 10, 98])
   \<and> normalizeExtractedText [97, 32, 10, 98] = [97, 10, 98]
   \<and> is_blank 32 \<and> is_blank 9 \<and> \<not> is_blank (last [97])
   \<and> replace_blanks_lf ([97] @ [32, 9] @ [10] @ [98]) = replace_blanks_lf [97] @ [10] @ replace_blanks_lf [98]
   \<and> replace_blanks_lf [97, 32, 9, 10, 98] = [97, 10, 98]
   \<and> (3::nat) \<le> 4 \<and> \<not> is_lf (last [97]) \<and> \<not> is_lf (hd [98])
   \<and> replace_lf3 ([97] @ replicate 4 10 @ [98]) = replace_lf3 [97] @ [10, 10] @ replace_lf3 [98]
   \<and> replace_lf3 [97, 10, 10, 10, 10, 98] = [97, 10, 10, 98]
   \<and> is_ws 32 \<and> is_ws 10 \<and> is_ws 13 \<and> is_ws 9 \<and> trimmed [97, 32, 98]
   \<and> trim ([32, 10] @ [97, 32, 98] @ [13, 9]) = [97, 32, 98]
   \<and> trimmed (normalizeExtractedText [32, 97, 32, 13, 10, 9, 10, 10, 10, 98, 13, 10])"
proof -
  note th = normalizeExtractedText_stages[of "[32, 97, 32, 13, 10, 9, 10, 10, 10, 98, 13, 10]"
      "[97]" "[98]" "[97, 13, 98, 10]" "[32, 9]" 4 "[32, 10]" "[13, 9]" "[97, 32, 98]"]
  note th2 = normalizeExtractedText_stages[of "[97, 32, 10, 98]"
      "[97]" "[98]" "[13, 13, 10]" "[32, 9]" 4 "[32, 10]" "[13, 9]" "[97, 32, 98]"]
  have hyps: "\<not> contains [is_cr, is_lf] [97, 13, 98, 10]
      \<and> (\<forall>c \<in> set [32, 9]. is_blank c) \<and> \<not> is_blank (last [97])
      \<and> (3::nat) \<le> 4 \<and> \<not> is_lf (last [97]) \<and> \<not> is_lf (hd [98])
      \<and> (\<forall>c \<in> set [32, 10]. is_ws c) \<and> (\<forall>c \<in> set [13, 9]. is_ws c) \<and> trimmed [97, 32, 98]"
    by (simp add: is_cr_def is_lf_def is_blank_def is_ws_def trimmed_def)
  have concl: "replace_crlf ([97] @ [13, 10] @ [98]) = replace_crlf [97] @ [10] @ replace_crlf [98]
      \<and> replace_crlf [97, 13, 98, 10] = [97, 13, 98, 10]
      \<and> replace_blanks_lf ([97] @ [32, 9] @ [10] @ [98]) = replace_blanks_lf [97] @ [10] @ replace_blanks_lf [98]
      \<and> replace_lf3 ([97] @ replicate 4 10 @ [98]) = replace_lf3 [97] @ [10, 10] @ replace_lf3 [98]
      \<and> trim ([32, 10] @ [97, 32, 98] @ [13, 9]) = [97, 32, 98]
      \<and> trimmed (normalizeExtractedText [32, 97, 32, 13, 10, 9, 10, 10, 10, 98, 13, 10])"
    using th hyps by blast
  have hyps2: "contains [is_cr, is_lf] (replace_crlf [13, 13, 10]) \<and> (13::nat) \<notin> set [97, 32, 10, 98]"
    by (simp add: eval_norm)
  have concl2: "contains [is_cr, is_cr, is_lf] [13, 13, 10]
      \<and> 13 \<notin> set (normalizeExtractedText [97, 32, 10, 98])"
    using th2 hyps2 by blast
  have units: "is_blank 32 \<and> is_blank 9 \<and> is_ws 32 \<and> is_ws 10 \<and> is_ws 13 \<and> is_ws 9"
    by (simp add: is_blank_def is_ws_def)
  have ev: "normalizeExtractedText [32, 97, 32, 13, 10, 9, 10, 10, 10, 98, 13, 10] = [97, 10, 10, 98]
      \<and> replace_crlf [97, 13, 10, 98] = [97, 10, 98]
      \<and> replace_crlf [13, 13, 10] = [13, 10]
      \<and> normalizeExtractedText [97, 32, 10, 98] = [97, 10, 98]
      \<and> replace_blanks_lf [97, 32, 9, 10, 98] = [97, 10, 98]
      \<and> replace_lf3 [97, 10, 10, 10, 10, 98] = [97, 10, 10, 98]"
    by (simp add: eval_norm)
  show ?thesis using concl hyps concl2 hyps2 units ev by blast
qed

text \<open>
  Claim C10, as stated, fails: on \<open>"a\r\r\nb"\<close> the first application yields \<open>"a\r\nb"\<close>,
  because the replacement of CR LF by LF leaves a new CR LF pair behind, and the second
  application yields \<open>"a\nb"\<close>.
\<close>

theorem normalize_idempotent_counterexample:
  "normalizeExtractedText (normalizeExtractedText [97, 13, 13, 10, 98])
     \<noteq> normalizeExtractedText [97, 13, 13, 10, 98]"
  by (simp add: eval_norm)

text \<open>
  Claim C10, amended. Applying the normaliser twice gives the same text as applying it
  once exactly when the normalised text contains no CR immediately followed by LF; that
  is so, in particular, for every input without CR.
\<close>

theorem normalize_idempotent_iff:
  "(normalizeExtractedText (normalizeExtractedText s) = normalizeExtractedText s
     \<longleftrightarrow> \<not> contains [is_cr, is_lf] (normalizeExtractedText s))
   \<and> (13 \<notin> set s \<longrightarrow> normalizeExtractedText (normalizeExtractedText s) = normalizeExtractedText s)"
proof -
  have iff: "normalizeExtractedText (normalizeExtractedText s) = normalizeExtractedText s
     \<longleftrightarrow> \<not> contains [is_cr, is_lf] (normalizeExtractedText s)"
  proof
    assume eq: "normalizeExtractedText (normalizeExtractedText s) = normalizeExtractedText s"
    show "\<not> contains [is_cr, is_lf] (normalizeExtractedText s)"
    proof
      assume "contains [is_cr, is_lf] (normalizeExtractedText s)"
      then have "length (normalizeExtractedText (normalizeExtractedText s))
                 < length (normalizeExtractedText s)" by (rule normalize_shrinks)
      with eq show False by simp
    qed
  next
    assume "\<not> contains [is_cr, is_lf] (normalizeExtractedText s)"
    then show "normalizeExtractedText (normalizeExtractedText s) = normalizeExtractedText s"
      using normalize_no_blank_lf normalize_no_lf3 normalize_trimmed by (rule normalize_fixed)
  qed
  moreover have "\<not> contains [is_cr, is_lf] (normalizeExtractedText s)" if "13 \<notin> set s"
    using normalize_no_new_cr[OF that] contains_cr by blast
  ultimately show ?thesis by blast
qed

text \<open>The normaliser applied twice to \<open>" a \n\t\n\n\nb\n"\<close>.\<close>

theorem normalize_idempotent_iff_witness:
  "normalizeExtractedText (normalizeExtractedText [32, 97, 32, 10, 9, 10, 10, 10, 98, 10])
     = normalizeExtractedText [32, 97, 32, 10, 9, 10, 10, 10, 98, 10]
   \<and> normalizeExtractedText [32, 97, 32, 10, 9, 10, 10, 10, 98, 10] = [97, 10, 10, 98]
   \<and> \<not> contains [is_cr, is_lf] (normalizeExtractedText [32, 97, 32, 10, 9, 10, 10, 10, 98, 10])
   \<and> (13::nat) \<notin> set [32, 97, 32, 10, 9, 10, 10, 10, 98, 10]"
proof -
  have e: "normalizeExtractedText [32, 97, 32, 10, 9, 10, 10, 10, 98, 10] = [97, 10, 10, 98]"
    by (simp add: eval_norm)
  have n: "(13::nat) \<notin> set [32, 97, 32, 10, 9, 10, 10, 10, 98, 10]" by simp
  from normalize_idempotent_iff[of "[32, 97, 32, 10, 9, 10, 10, 10, 98, 10]"] n
  have "normalizeExtractedText (normalizeExtractedText [32, 97, 32, 10, 9, 10, 10, 10, 98, 10])
     = normalizeExtractedText [32, 97, 32, 10, 9, 10, 10, 10, 98, 10]
     \<and> \<not> contains [is_cr, is_lf] (normalizeExtractedText [32, 97, 32, 10, 9, 10, 10, 10, 98, 10])"
    by blast
  then show ?thesis using e n by blast
qed
section \<open>Properties of the concurrency limiter\<close>

lemma count_list_update:
  "i < length xs \<Longrightarrow>
   int (count_list (xs[i := v]) a) =
     int (count_list xs a) - (if xs ! i = a then 1 else 0) + (if v = a then 1 else 0)"
proof (induction xs arbitrary: i)
  case Nil then show ?case by simp
next
  case (Cons x xs)
  show ?case
  proof (cases i)
    case 0 then show ?thesis by simp
  next
    case (Suc j)
    with Cons.prems have "j < length xs" by simp
    from Cons.IH[OF this] Suc show ?thesis by (auto split: if_splits)
  qed
qed

lemma reaches_mono: "reaches a m \<Longrightarrow> a \<le> b \<Longrightarrow> reaches b m"
proof (cases m)
  case (Finite q)
  assume "reaches a m" and "a \<le> b"
  then have "q \<le> of_int a" and "(of_int a :: rat) \<le> of_int b" using Finite by simp_all
  then show ?thesis using Finite by simp
qed simp_all

lemma limiter_inv_init: "limiter_inv (createConcurrencyLimiter mx n)"
  by (simp add: limiter_inv_def createConcurrencyLimiter_def permits_def count_list_0_iff)

lemma limiter_inv_enter:
  assumes inv: "limiter_inv g" and t: "t < length (phases g)"
    and ph: "phases g ! t = Idle \<or> phases g ! t = Woken"
  shows "limiter_inv (enter t g)"
proof (cases "reaches (active g) (limit g)")
  case True
  have tq: "t \<notin> set (queue g)" using inv ph by (auto simp: limiter_inv_def)
  have "int (count_list ((phases g)[t := Queued]) Holding) = int (count_list (phases g) Holding)"
    using count_list_update[OF t, of Queued Holding] ph by auto
  moreover have "\<forall>w \<in> set (queue g @ [t]). w < length (phases g) \<and> (phases g)[t := Queued] ! w = Queued"
    using inv t by (auto simp: limiter_inv_def nth_list_update)
  ultimately show ?thesis using True inv tq
    by (auto simp add: enter_def limiter_inv_def permits_def)
next
  case False
  have "int (count_list ((phases g)[t := Holding]) Holding) = int (count_list (phases g) Holding) + 1"
    using count_list_update[OF t, of Holding Holding] ph by auto
  moreover have "\<forall>w \<in> set (queue g). w < length (phases g) \<and> (phases g)[t := Holding] ! w = Queued"
    using inv ph t by (auto simp: limiter_inv_def nth_list_update)
  ultimately show ?thesis using False inv
    by (simp add: enter_def limiter_inv_def permits_def)
qed

lemma limiter_inv_leave:
  assumes inv: "limiter_inv g" and t: "t < length (phases g)" and ph: "phases g ! t = Holding"
  shows "limiter_inv (leave t r g)"
proof -
  let ?p1 = "(phases g)[t := Done r]"
  have c1: "int (count_list ?p1 Holding) = int (count_list (phases g) Holding) - 1"
    using count_list_update[OF t, of "Done r" Holding] ph by simp
  have q1: "\<forall>w \<in> set (queue g). w < length ?p1 \<and> ?p1 ! w = Queued"
    using inv ph t by (auto simp: limiter_inv_def nth_list_update)
  have "0 \<le> int (count_list ?p1 Holding)" by simp
  with c1 have "1 \<le> int (count_list (phases g) Holding)" by linarith
  then have pos: "1 \<le> active g" using inv by (simp add: limiter_inv_def permits_def)
  have "active g = 0 \<or> \<not> reaches (active g - 1) (limit g)"
    using inv unfolding limiter_inv_def by blast
  with pos have "\<not> reaches (active g - 1) (limit g)" by auto
  then have below: "\<not> reaches (active g - 1 - 1) (limit g)"
    using reaches_mono[of "active g - 1 - 1" "limit g" "active g - 1"] by auto
  show ?thesis
  proof (cases "queue g")
    case Nil
    then show ?thesis using inv c1 below
      by (simp add: leave_def limiter_inv_def permits_def Let_def)
  next
    case (Cons w ws)
    have w: "w < length ?p1" "?p1 ! w = Queued" using q1 Cons by simp_all
    have c2: "int (count_list (?p1[w := Woken]) Holding) = int (count_list ?p1 Holding)"
      using count_list_update[OF w(1), of Woken Holding] w(2) by simp
    have dq: "distinct ws" "w \<notin> set ws" using inv Cons by (simp_all add: limiter_inv_def)
    have q2: "\<forall>v \<in> set ws. v < length ?p1 \<and> ?p1[w := Woken] ! v = Queued"
      using q1 Cons dq by (auto simp: nth_list_update)
    show ?thesis using inv Cons c1 c2 dq q2 below
      by (simp add: leave_def limiter_inv_def permits_def Let_def)
  qed
qed

lemma limiter_inv_step: "limiter_inv g \<Longrightarrow> limiter_inv (limiter_step g ev)"
  by (cases ev) (auto intro: limiter_inv_enter limiter_inv_leave)

lemma limiter_inv_run: "limiter_inv g \<Longrightarrow> limiter_inv (foldl limiter_step g evs)"
  by (induction evs arbitrary: g) (auto intro: limiter_inv_step)

lemma leave_releases:
  "t < length (phases g) \<Longrightarrow> queue g \<noteq> [] \<longrightarrow> hd (queue g) \<noteq> t \<Longrightarrow>
   active (leave t r g) = active g - 1 \<and> phases (leave t r g) ! t = Done r"
  by (cases "queue g") (auto simp: leave_def Let_def nth_list_update)

lemma limit_enter: "limit (enter t g) = limit g"
  by (simp add: enter_def)

lemma limit_leave: "limit (leave t r g) = limit g"
  by (simp add: leave_def Let_def split: list.splits)

lemma limit_step: "limit (limiter_step g ev) = limit g"
  by (cases ev) (simp_all add: limit_enter limit_leave)

lemma limit_run: "limit (foldl limiter_step g evs) = limit g"
  by (induction evs arbitrary: g) (simp_all add: limit_step)

lemma length_phases_enter: "length (phases (enter t g)) = length (phases g)"
  by (simp add: enter_def)

lemma length_phases_leave: "length (phases (leave t r g)) = length (phases g)"
  by (simp add: leave_def Let_def split: list.splits)

lemma length_phases_step: "length (phases (limiter_step g ev)) = length (phases g)"
  by (cases ev) (simp_all add: length_phases_enter length_phases_leave)

lemma limiter_inv_settle:
  assumes inv: "limiter_inv g" and t: "t < length (phases g)" and ph: "phases g ! t = Holding"
  shows "active (limiter_step g (Settle t r)) = active g - 1 \<and>
         phases (limiter_step g (Settle t r)) ! t = Done r \<and>
         int (permits (limiter_step g (Settle t r))) = int (permits g) - 1"
proof -
  have "queue g \<noteq> [] \<longrightarrow> hd (queue g) \<noteq> t"
  proof
    assume "queue g \<noteq> []"
    then have "hd (queue g) \<in> set (queue g)" by simp
    with inv have "phases g ! hd (queue g) = Queued" by (simp add: limiter_inv_def)
    with ph show "hd (queue g) \<noteq> t" by auto
  qed
  with t have rel: "active (leave t r g) = active g - 1 \<and> phases (leave t r g) ! t = Done r"
    by (rule leave_releases)
  have "limiter_inv (leave t r g)" using inv t ph by (rule limiter_inv_leave)
  then have "active (leave t r g) = int (permits (leave t r g))" by (simp add: limiter_inv_def)
  moreover have "active g = int (permits g)" using inv by (simp add: limiter_inv_def)
  ultimately show ?thesis using rel t ph by simp
qed

lemma queue_ok_init: "queue_ok (createConcurrencyLimiter mx n)"
  by (simp add: queue_ok_def createConcurrencyLimiter_def)

lemma queue_ok_enter:
  assumes ok: "queue_ok g" and t: "t < length (phases g)"
    and ph: "phases g ! t = Idle \<or> phases g ! t = Woken"
  shows "queue_ok (enter t g)"
proof -
  have tq: "t \<notin> set (queue g)" using ok ph by (auto simp: queue_ok_def)
  show ?thesis using ok t tq by (auto simp: enter_def queue_ok_def nth_list_update)
qed

lemma queue_ok_leave:
  assumes ok: "queue_ok g" and t: "t < length (phases g)" and ph: "phases g ! t = Holding"
  shows "queue_ok (leave t r g)"
proof (cases "queue g")
  case Nil
  then show ?thesis by (simp add: leave_def queue_ok_def Let_def)
next
  case (Cons w ws)
  have tq: "t \<notin> set (queue g)" using ok ph by (auto simp: queue_ok_def)
  show ?thesis using ok t tq Cons
    by (auto simp: leave_def queue_ok_def Let_def nth_list_update)
qed

lemma queue_ok_step: "queue_ok g \<Longrightarrow> queue_ok (limiter_step g ev)"
  by (cases ev) (auto intro: queue_ok_enter queue_ok_leave)

subsection \<open>The phase of an invocation after a step\<close>

lemma phase_after_enter:
  "j < length (phases g) \<Longrightarrow>
   phases (enter t g) ! j =
     (if j = t then (if reaches (active g) (limit g) then Queued else Holding) else phases g ! j)"
  by (simp add: enter_def nth_list_update)

lemma phase_after_leave:
  assumes ok: "queue_ok g" and j: "j < length (phases g)" and t: "t < length (phases g)"
    and ph: "phases g ! t = Holding"
  shows "phases (leave t r g) ! j =
     (if j = t then Done r
      else if queue g \<noteq> [] \<and> hd (queue g) = j then Woken else phases g ! j)"
proof (cases "queue g")
  case Nil
  then show ?thesis using j t by (simp add: leave_def Let_def nth_list_update)
next
  case (Cons w ws)
  have "w \<in> set (queue g)" using Cons by simp
  with ok have "phases g ! w = Queued" by (simp add: queue_ok_def)
  with ph have "w \<noteq> t" by auto
  then show ?thesis using j t Cons
    by (auto simp: leave_def Let_def nth_list_update)
qed

lemma hd_queue_Queued:
  "queue_ok g \<Longrightarrow> queue g \<noteq> [] \<Longrightarrow> phases g ! hd (queue g) = Queued"
  by (cases "queue g") (auto simp: queue_ok_def)

lemma step_keeps_Done:
  assumes ok: "queue_ok g" and j: "j < length (phases g)" and d: "phases g ! j = Done r"
  shows "phases (limiter_step g ev) ! j = Done r"
proof (cases ev)
  case (Call t) then show ?thesis using j d by (auto simp: phase_after_enter)
next
  case (Resume t) then show ?thesis using j d by (auto simp: phase_after_enter)
next
  case (Settle t r')
  show ?thesis
  proof (cases "t < length (phases g) \<and> phases g ! t = Holding")
    case False then show ?thesis using Settle d by auto
  next
    case True
    have "\<not> (queue g \<noteq> [] \<and> hd (queue g) = j)" using hd_queue_Queued[OF ok] d by auto
    moreover have "j \<noteq> t" using True d by auto
    ultimately show ?thesis using Settle True phase_after_leave[OF ok j, of t r'] d by simp
  qed
qed

lemma step_new_Done:
  assumes ok: "queue_ok g" and j: "j < length (phases g)"
    and d: "phases (limiter_step g ev) ! j = Done r"
  shows "phases g ! j = Done r \<or> (ev = Settle j r \<and> phases g ! j = Holding)"
proof (cases ev)
  case (Call t) then show ?thesis using j d by (auto simp: phase_after_enter split: if_splits)
next
  case (Resume t) then show ?thesis using j d by (auto simp: phase_after_enter split: if_splits)
next
  case (Settle t r')
  show ?thesis
  proof (cases "t < length (phases g) \<and> phases g ! t = Holding")
    case False then show ?thesis using Settle d by auto
  next
    case True
    then show ?thesis using Settle d phase_after_leave[OF ok j, of t r']
      by (auto split: if_splits)
  qed
qed

lemma enter_keeps_Holding:
  assumes j: "j < length (phases g)" and h: "phases g ! j = Holding"
    and ev: "ev = Call t \<or> ev = Resume t"
  shows "phases (limiter_step g ev) ! j = Holding"
  using assms by (auto simp: phase_after_enter)

lemma settle_keeps_Holding:
  assumes ok: "queue_ok g" and j: "j < length (phases g)" and h: "phases g ! j = Holding"
    and ne: "j \<noteq> t"
  shows "phases (limiter_step g (Settle t r)) ! j = Holding"
proof (cases "t < length (phases g) \<and> phases g ! t = Holding")
  case False then show ?thesis using h by auto
next
  case True
  have "\<not> (queue g \<noteq> [] \<and> hd (queue g) = j)" using hd_queue_Queued[OF ok] h by auto
  then show ?thesis using True ne h phase_after_leave[OF ok j, of t r] by simp
qed

lemma phase_after_settle:
  assumes "queue_ok g" and "j < length (phases g)" and "t < length (phases g)"
    and "phases g ! t = Holding"
  shows "phases (limiter_step g (Settle t r)) ! j =
     (if j = t then Done r
      else if queue g \<noteq> [] \<and> hd (queue g) = j then Woken else phases g ! j)"
  using phase_after_leave[OF assms] assms by simp

lemma limiter_inv_bound:
  assumes "limiter_inv g" and "limit g = Finite (of_int L)" and "0 \<le> L"
  shows "int (permits g) \<le> L"
proof (cases "active g = 0")
  case True
  then show ?thesis using assms by (simp add: limiter_inv_def)
next
  case False
  have "active g = 0 \<or> \<not> reaches (active g - 1) (limit g)"
    using assms(1) unfolding limiter_inv_def by blast
  with False have "\<not> reaches (active g - 1) (Finite (of_int L))" using assms(2) by simp
  then have "\<not> L \<le> active g - 1" by simp
  then have "active g \<le> L" by linarith
  moreover have "active g = int (permits g)" using assms(1) unfolding limiter_inv_def by blast
  ultimately show ?thesis by simp
qed

lemma limiter_inv_bound_rat:
  assumes "limiter_inv g" and "limit g = Finite q" and "0 \<le> q"
  shows "(of_int (int (permits g)) :: rat) < q + 1"
proof (cases "active g = 0")
  case True
  then have "permits g = 0" using assms(1) by (simp add: limiter_inv_def)
  then show ?thesis using assms(3) by simp
next
  case False
  have "active g = 0 \<or> \<not> reaches (active g - 1) (limit g)"
    using assms(1) unfolding limiter_inv_def by blast
  with False have "\<not> reaches (active g - 1) (Finite q)" using assms(2) by simp
  then have "(of_int (active g) :: rat) < q + 1" by simp
  moreover have "active g = int (permits g)" using assms(1) unfolding limiter_inv_def by blast
  ultimately show ?thesis by simp
qed

declare limiter_step.simps [simp del]

section \<open>Properties of the pipeline\<close>

lemma pinv_enh_enter:
  assumes inv: "pinv env n s" and ev: "ev = Call t \<or> ev = Resume t"
  shows "pinv env n (enh_enter i ev s)"
proof -
  let ?g = "enhanceLimiter s"
  have ok: "queue_ok ?g" and len: "length (phases ?g) = n" using inv by (simp_all add: pinv_def)
  have "\<forall>j<n. enhancedPromises s ! j \<longrightarrow> phases (limiter_step ?g ev) ! j = Done None"
    using inv step_keeps_Done[OF ok] by (simp add: pinv_def)
  moreover have "queue_ok (limiter_step ?g ev)" using ok by (rule queue_ok_step)
  moreover have "length (phases (limiter_step ?g ev)) = n" using len by (simp add: length_phases_step)
  ultimately show ?thesis using inv
    by (simp add: pinv_def enh_enter_def Let_def)
qed

lemma pinv_ocr_enter:
  assumes inv: "pinv env n s" and ev: "ev = Call t \<or> ev = Resume t"
  shows "pinv env n (s\<lparr>ocrLimiter := limiter_step (ocrLimiter s) ev\<rparr>)"
proof -
  let ?g = "ocrLimiter s"
  let ?g' = "limiter_step ?g ev"
  have ok: "queue_ok ?g" and len: "length (phases ?g) = n" using inv by (simp_all add: pinv_def)
  have a: "\<forall>i<n. begun s ! i \<longrightarrow>
        enhancedPromises s ! i \<and> (phases ?g' ! i = Holding \<or> (\<exists>r. phases ?g' ! i = Done r))"
  proof (intro allI impI)
    fix i assume i: "i < n" and b: "begun s ! i"
    with inv have sg: "enhancedPromises s ! i"
      and ph: "phases ?g ! i = Holding \<or> (\<exists>r. phases ?g ! i = Done r)"
      by (simp_all add: pinv_def)
    from ph have "phases ?g' ! i = Holding \<or> (\<exists>r. phases ?g' ! i = Done r)"
      using enter_keeps_Holding[of i ?g ev t] step_keeps_Done[OF ok, of i] i len ev by auto
    with sg show "enhancedPromises s ! i \<and> (phases ?g' ! i = Holding \<or> (\<exists>r. phases ?g' ! i = Done r))" by simp
  qed
  have new: "\<And>i r. i < n \<Longrightarrow> phases ?g' ! i = Done r \<Longrightarrow> phases ?g ! i = Done r"
    using step_new_Done[OF ok] len ev by auto
  have b: "\<forall>i<n. \<forall>r. phases ?g' ! i = Done r \<longrightarrow> begun s ! i"
    using new inv by (auto simp: pinv_def)
  have c: "\<forall>i<n. phases ?g' ! i = Done None \<longrightarrow>
        (\<exists>t. ocr_body env i = Inr t \<and> pageResults s ! i = Some t)"
    using new inv by (auto simp: pinv_def)
  have "queue_ok ?g'" using ok by (rule queue_ok_step)
  moreover have "length (phases ?g') = n" using len by (simp add: length_phases_step)
  ultimately show ?thesis using inv a b c by (simp add: pinv_def)
qed

lemma pinv_EnhSettle:
  assumes inv: "pinv env n s"
  shows "pinv env n (pstep env s (EnhSettle i))"
proof (cases "holds (enhanceLimiter s) i")
  case False then show ?thesis using inv by simp
next
  case True
  let ?g = "enhanceLimiter s"
  let ?r = "enhance_res env i"
  let ?g' = "limiter_step ?g (Settle i ?r)"
  let ?sig = "if ?r = None then (enhancedPromises s)[i := True] else enhancedPromises s"
  have ok: "queue_ok ?g" and len: "length (phases ?g) = n" and ls: "length (enhancedPromises s) = n"
    using inv by (simp_all add: pinv_def)
  have i: "i < n" and h: "phases ?g ! i = Holding" using True len by (simp_all add: holds_def)
  have nsig: "\<not> enhancedPromises s ! i" using inv i h by (auto simp: pinv_def)
  have pi: "phases ?g' ! i = Done ?r"
    using phase_after_settle[OF ok, of i i ?r] i h len by simp
  have a: "\<forall>j<n. ?sig ! j \<longrightarrow> phases ?g' ! j = Done None"
  proof (intro allI impI)
    fix j assume j: "j < n" and sj: "?sig ! j"
    show "phases ?g' ! j = Done None"
    proof (cases "j = i")
      case True
      with sj nsig ls i have "?r = None" by (auto split: if_splits)
      with pi True show ?thesis by simp
    next
      case False
      with sj ls have "enhancedPromises s ! j" by (auto split: if_splits)
      with inv j have "phases ?g ! j = Done None" by (simp add: pinv_def)
      then show ?thesis using step_keeps_Done[OF ok, of j None "Settle i ?r"] j len
        by simp
    qed
  qed
  have b: "\<forall>j<n. begun s ! j \<longrightarrow> ?sig ! j"
  proof (intro allI impI)
    fix j assume j: "j < n" and bj: "begun s ! j"
    with inv have "enhancedPromises s ! j" by (simp add: pinv_def)
    then show "?sig ! j" using ls j by (cases "j = i") auto
  qed
  have "queue_ok ?g'" using ok by (rule queue_ok_step)
  moreover have "length (phases ?g') = n" using len by (simp add: length_phases_step)
  moreover have "length ?sig = n" using ls by simp
  ultimately show ?thesis using inv a b True
    by (simp add: pinv_def Let_def)
qed

lemma pinv_OcrStart:
  assumes inv: "pinv env n s"
  shows "pinv env n (pstep env s (OcrStart i))"
proof (cases "holds (ocrLimiter s) i \<and> i < length (enhancedPromises s) \<and> enhancedPromises s ! i
         \<and> i < length (begun s) \<and> \<not> begun s ! i")
  case False then show ?thesis using inv by auto
next
  case True
  have lb: "length (begun s) = n" using inv by (simp add: pinv_def)
  have i: "i < n" using True lb by simp
  have h: "phases (ocrLimiter s) ! i = Holding" using True by (simp add: holds_def)
  let ?b = "(begun s)[i := True]"
  have a: "\<forall>j<n. ?b ! j \<longrightarrow> enhancedPromises s ! j \<and>
      (phases (ocrLimiter s) ! j = Holding \<or> (\<exists>r. phases (ocrLimiter s) ! j = Done r))"
  proof (intro allI impI)
    fix j assume j: "j < n" and bj: "?b ! j"
    show "enhancedPromises s ! j \<and>
      (phases (ocrLimiter s) ! j = Holding \<or> (\<exists>r. phases (ocrLimiter s) ! j = Done r))"
    proof (cases "j = i")
      case True with \<open>holds (ocrLimiter s) i \<and> _\<close> h show ?thesis by simp
    next
      case False
      with bj have "begun s ! j" by simp
      with inv j show ?thesis by (simp add: pinv_def)
    qed
  qed
  have b: "\<forall>j<n. \<forall>r. phases (ocrLimiter s) ! j = Done r \<longrightarrow> ?b ! j"
  proof (intro allI impI)
    fix j r assume j: "j < n" and d: "phases (ocrLimiter s) ! j = Done r"
    with inv have "begun s ! j" by (auto simp: pinv_def)
    then show "?b ! j" using lb i by (cases "j = i") simp_all
  qed
  have c: "\<forall>j. Recognize j \<in> set (pcalls s @ (if read_res env i = None \<and> client env then [Recognize i] else []))
      \<longrightarrow> j < n \<and> ?b ! j"
    using inv lb i by (auto simp: pinv_def nth_list_update)
  show ?thesis using inv a b c True lb
    by (simp add: pinv_def)
qed

lemma pinv_OcrSettle:
  assumes inv: "pinv env n s"
  shows "pinv env n (pstep env s (OcrSettle i))"
proof (cases "holds (ocrLimiter s) i \<and> i < length (begun s) \<and> begun s ! i")
  case False then show ?thesis using inv by auto
next
  case True
  let ?g = "ocrLimiter s"
  have ok: "queue_ok ?g" and len: "length (phases ?g) = n" and lp: "length (pageResults s) = n"
    using inv by (simp_all add: pinv_def)
  have i: "i < n" and h: "phases ?g ! i = Holding" using True len by (simp_all add: holds_def)
  have bi: "begun s ! i" using True by simp
  { fix r :: "error option" and pr :: "jsstring option list"
    assume prlen: "length pr = n"
      and prj: "\<And>j. j < n \<Longrightarrow> j \<noteq> i \<Longrightarrow> pr ! j = pageResults s ! j"
      and pri: "r = None \<Longrightarrow> \<exists>t. ocr_body env i = Inr t \<and> pr ! i = Some t"
    let ?g' = "limiter_step ?g (Settle i r)"
    have pi: "phases ?g' ! i = Done r"
      using phase_after_settle[OF ok, of i i r] i h len by simp
    have a: "\<forall>j<n. begun s ! j \<longrightarrow> enhancedPromises s ! j \<and>
        (phases ?g' ! j = Holding \<or> (\<exists>r. phases ?g' ! j = Done r))"
    proof (intro allI impI)
      fix j assume j: "j < n" and bj: "begun s ! j"
      with inv have sg: "enhancedPromises s ! j"
        and ph: "phases ?g ! j = Holding \<or> (\<exists>r. phases ?g ! j = Done r)"
        by (simp_all add: pinv_def)
      have "phases ?g' ! j = Holding \<or> (\<exists>r. phases ?g' ! j = Done r)"
      proof (cases "j = i")
        case True with pi show ?thesis by simp
      next
        case False
        then show ?thesis
          using ph settle_keeps_Holding[OF ok, of j i r] step_keeps_Done[OF ok, of j] j len by auto
      qed
      with sg show "enhancedPromises s ! j \<and> (phases ?g' ! j = Holding \<or> (\<exists>r. phases ?g' ! j = Done r))"
        by simp
    qed
    have new: "\<And>j q. j < n \<Longrightarrow> j \<noteq> i \<Longrightarrow> phases ?g' ! j = Done q \<Longrightarrow> phases ?g ! j = Done q"
      using step_new_Done[OF ok] len by auto
    have b: "\<forall>j<n. \<forall>q. phases ?g' ! j = Done q \<longrightarrow> begun s ! j"
    proof (intro allI impI)
      fix j q assume j: "j < n" and d: "phases ?g' ! j = Done q"
      show "begun s ! j"
      proof (cases "j = i")
        case True with bi show ?thesis by simp
      next
        case False
        with new[OF j _ d] inv j show ?thesis by (auto simp: pinv_def)
      qed
    qed
    have c: "\<forall>j<n. phases ?g' ! j = Done None \<longrightarrow> (\<exists>t. ocr_body env j = Inr t \<and> pr ! j = Some t)"
    proof (intro allI impI)
      fix j assume j: "j < n" and d: "phases ?g' ! j = Done None"
      show "\<exists>t. ocr_body env j = Inr t \<and> pr ! j = Some t"
      proof (cases "j = i")
        case True
        with d pi have "r = None" by simp
        with pri True show ?thesis by simp
      next
        case False
        with new[OF j _ d] have "phases ?g ! j = Done None" by simp
        with inv j have "\<exists>t. ocr_body env j = Inr t \<and> pageResults s ! j = Some t"
          by (simp add: pinv_def)
        with prj[OF j False] show ?thesis by simp
      qed
    qed
    have "queue_ok ?g'" using ok by (rule queue_ok_step)
    moreover have "length (phases ?g') = n" using len by (simp add: length_phases_step)
    ultimately have "\<And>rej. pinv env n (s\<lparr>ocrLimiter := ?g', pageResults := pr, rejection := rej\<rparr>)"
      using inv a b c prlen by (simp add: pinv_def)
  } note core = this
  show ?thesis
  proof (cases "ocr_body env i")
    case (Inl e)
    have "pinv env n (s\<lparr>ocrLimiter := limiter_step ?g (Settle i (Some e)), pageResults := pageResults s,
        rejection := first_error (rejection s) (Some e)\<rparr>)"
      by (rule core) (simp_all add: lp)
    then show ?thesis using True Inl by simp
  next
    case (Inr t)
    have "pinv env n (s\<lparr>ocrLimiter := limiter_step ?g (Settle i None),
        pageResults := (pageResults s)[i := Some t], rejection := rejection s\<rparr>)"
      by (rule core) (use lp i Inr in simp_all)
    then show ?thesis using True Inr by simp
  qed
qed

lemma pinv_step: "pinv env n s \<Longrightarrow> pinv env n (pstep env s ev)"
proof (cases ev)
  case (EnhResume i)
  assume "pinv env n s"
  then show ?thesis using EnhResume pinv_enh_enter[of env n s "Resume i" i i] by simp
next
  case (OcrResume i)
  assume "pinv env n s"
  then show ?thesis using OcrResume pinv_ocr_enter[of env n s "Resume i" i] by simp
qed (simp_all add: pinv_EnhSettle pinv_OcrStart pinv_OcrSettle del: pstep.simps, simp_all)

lemma pinv_run: "pinv env n s \<Longrightarrow> pinv env n (foldl (pstep env) s evs)"
  by (induction evs arbitrary: s) (simp_all add: pinv_step del: pstep.simps)

lemma pinv_fold_enh:
  "pinv env n s \<Longrightarrow> pinv env n (foldl (\<lambda>s i. enh_enter i (Call i) s) s is)"
proof (induction "is" arbitrary: s)
  case Nil then show ?case by simp
next
  case (Cons a as)
  have "pinv env n (enh_enter a (Call a) s)"
    using Cons.prems by (rule pinv_enh_enter) simp
  then show ?case using Cons.IH by simp
qed

lemma pinv_fold_ocr:
  "pinv env n s \<Longrightarrow> pinv env n (foldl (\<lambda>s i. s\<lparr>ocrLimiter := limiter_step (ocrLimiter s) (Call i)\<rparr>) s is)"
proof (induction "is" arbitrary: s)
  case Nil then show ?case by simp
next
  case (Cons a as)
  have "pinv env n (s\<lparr>ocrLimiter := limiter_step (ocrLimiter s) (Call a)\<rparr>)"
    using Cons.prems by (rule pinv_ocr_enter) simp
  then show ?case using Cons.IH by simp
qed

lemma pinv_start: "pinv env n (pstart env n)"
proof -
  have "pinv env n \<lparr>enhanceLimiter = createConcurrencyLimiter (conc_enh env) n,
                ocrLimiter = createConcurrencyLimiter (conc_ocr env) n,
                enhancedPromises = replicate n False, begun = replicate n False,
                pageResults = replicate n None, rejection = None, pcalls = []\<rparr>"
    by (simp add: pinv_def queue_ok_init) (simp add: createConcurrencyLimiter_def)
  then show ?thesis unfolding pstart_def Let_def
    by (intro pinv_fold_ocr pinv_fold_enh)
qed


lemma pinv_await:
  "pinv env n s \<Longrightarrow> pinv env n (fst (await_pipeline env s evs))"
  by (induction evs arbitrary: s) (simp_all add: pinv_step del: pstep.simps)

lemma fulfilled_results:
  assumes inv: "pinv env n s" and f: "all_fulfilled (ocrLimiter s)"
  shows "pageResults s = map (\<lambda>i. Some (page_text env i)) [0..<n]"
proof (rule nth_equalityI)
  show "length (pageResults s) = length (map (\<lambda>i. Some (page_text env i)) [0..<n])"
    using inv by (simp add: pinv_def)
next
  fix i assume "i < length (pageResults s)"
  then have i: "i < n" using inv by (simp add: pinv_def)
  then have "i < length (phases (ocrLimiter s))" using inv by (simp add: pinv_def)
  with f have "phases (ocrLimiter s) ! i = Done None"
    by (simp add: all_fulfilled_def list_all_length)
  with inv i obtain t where "ocr_body env i = Inr t" "pageResults s ! i = Some t"
    by (auto simp: pinv_def)
  then show "pageResults s ! i = map (\<lambda>i. Some (page_text env i)) [0..<n] ! i"
    using i by (simp add: page_text_def)
qed

lemma assemble_from_closed:
  "assemble_from markers prs i acc =
     acc @ concat (map (\<lambda>k. segment markers k (render (prs ! k))) [i..<length prs])"
proof (induction markers prs i acc rule: assemble_from.induct)
  case (1 markers prs i acc)
  show ?case
  proof (cases "i < length prs")
    case False
    then show ?thesis by (simp add: assemble_from.simps[of markers prs i acc])
  next
    case True
    then have up: "[i..<length prs] = i # [i + 1..<length prs]" by (simp add: upt_conv_Cons)
    show ?thesis
      using True 1
      by (simp add: assemble_from.simps[of markers prs i acc] up segment_def page_marker_def)
  qed
qed

lemma assemble_pages:
  "assemble_from markers (map (\<lambda>i. Some (page_text env i)) [0..<n]) 0 [] = pages_in_order env markers n"
proof -
  have eq: "map (\<lambda>k. segment markers k (render (map (\<lambda>i. Some (page_text env i)) [0..<n] ! k))) [0..<n]
        = map (\<lambda>i. segment markers i (page_text env i)) [0..<n]"
    by (rule map_cong) simp_all
  show ?thesis unfolding pages_in_order_def assemble_from_closed
    by (simp only: length_map length_upt diff_zero eq append_Nil)
qed

lemma fulfilled_bodies:
  assumes inv: "pinv env n s" and f: "all_fulfilled (ocrLimiter s)" and i: "i < n"
  shows "\<exists>t. ocr_body env i = Inr t"
proof -
  have "i < length (phases (ocrLimiter s))" using inv i by (simp add: pinv_def)
  with f have "phases (ocrLimiter s) ! i = Done None"
    by (simp add: all_fulfilled_def list_all_length)
  with inv i show ?thesis by (auto simp: pinv_def)
qed

lemma convert_Returned:
  "convertPdfToPngImages env evs w = (w', Returned (files, rest), late) \<Longrightarrow>
   list_res env = Inr files \<and> late = []"
  by (auto simp: convertPdfToPngImages_def Let_def
           split: prod.splits option.splits sum.splits if_splits)

lemma tryBody_Returned:
  assumes "tryBody env markers evs = (w, Returned (tx, n))"
  shows "\<exists>files. list_res env = Inr files \<and> n = length files \<and> tx = pages_in_order env markers n
           \<and> (\<forall>i<n. \<exists>t. ocr_body env i = Inr t)"
proof -
  from assms obtain w3 w4 files rest late ps rest' where
      conv: "convertPdfToPngImages env evs w3 = (w4, Returned (files, rest), late)"
    and aw: "await_pipeline env (pstart env (length files)) rest = (ps, rest')"
    and settled: "psettled ps" and rej: "rejection ps = None"
    and tx: "tx = assemble_from markers (pageResults ps) 0 []"
    and n: "n = length (pageResults ps)"
    by (auto simp: tryBody_def tryBlock_def Let_def
             split: prod.splits option.splits completion.splits if_splits)
  have inv: "pinv env (length files) ps"
    using pinv_await[OF pinv_start, of env "length files" rest] aw by simp
  from settled rej have "all_fulfilled (ocrLimiter ps)" by (simp add: psettled_def)
  with inv have pr: "pageResults ps = map (\<lambda>i. Some (page_text env i)) [0..<length files]"
    by (rule fulfilled_results)
  have bodies: "\<forall>i<length files. \<exists>t. ocr_body env i = Inr t"
    using fulfilled_bodies[OF inv \<open>all_fulfilled (ocrLimiter ps)\<close>] by blast
  have "list_res env = Inr files" using convert_Returned[OF conv] by simp
  then show ?thesis using pr tx n bodies by (auto simp: assemble_pages)
qed

lemma run_Returned:
  assumes "runOcrProcessingPipeline env markers evs = (w, Returned r)"
  shows "\<exists>w0 tx. tryBody env markers evs = (w0, Returned (tx, r_pages r)) \<and> rm_res env 0 = None \<and>
           r = \<lparr>r_success = True, r_text = trim tx, r_pages = r_pages r, r_length = length (trim tx)\<rparr>"
  using assms
  by (auto simp: runOcrProcessingPipeline_def cleanup_and_rethrow_def
           split: prod.splits option.splits completion.splits)

lemma run_text:
  assumes "runOcrProcessingPipeline env markers evs = (w, Returned r)"
  shows "r = \<lparr>r_success = True, r_text = trim (pages_in_order env markers (r_pages r)),
              r_pages = r_pages r, r_length = length (trim (pages_in_order env markers (r_pages r)))\<rparr>
         \<and> (\<exists>files. list_res env = Inr files \<and> r_pages r = length files)"
proof -
  from run_Returned[OF assms] obtain w0 tx where
    tb: "tryBody env markers evs = (w0, Returned (tx, r_pages r))"
    and r: "r = \<lparr>r_success = True, r_text = trim tx, r_pages = r_pages r, r_length = length (trim tx)\<rparr>"
    by blast
  from tryBody_Returned[OF tb] obtain files where
    "list_res env = Inr files" "r_pages r = length files" "tx = pages_in_order env markers (r_pages r)"
    by blast
  with r show ?thesis by auto
qed


lemma tryBody_bodies:
  assumes "tryBody env markers evs = (w, Returned (tx, n))" and "i < n"
  shows "\<exists>t. ocr_body env i = Inr t"
  using tryBody_Returned[OF assms(1)] assms(2) by blast

lemma run_bodies:
  assumes "runOcrProcessingPipeline env markers evs = (w, Returned r)" and "i < r_pages r"
  shows "\<exists>t. ocr_body env i = Inr t"
  using run_Returned[OF assms(1)] tryBody_bodies assms(2) by blast

lemma segments_from_one:
  "concat (map (\<lambda>k. [10, 10] @ js ''===== PAGE '' @ decimal k @ js '' ====='' @ [10, 10]
                       @ page_text env (k - 1)) [1..<n + 1])
   = pages_in_order env True n"
proof -
  have "[1..<n + 1] = map Suc [0..<n]" using map_Suc_upt[of 0 n] by simp
  then show ?thesis by (simp add: pages_in_order_def segment_def comp_def)
qed

subsection \<open>The three limiters of a run\<close>

lemma enter_event_inv:
  "limiter_inv g \<and> limit g = L \<Longrightarrow>
   limiter_inv (limiter_step g ev) \<and> limit (limiter_step g ev) = L"
  by (simp add: limiter_inv_step limit_step)

lemma enh_limiter_step:
  assumes "limiter_inv (enhanceLimiter s) \<and> limit (enhanceLimiter s) = L"
  shows "limiter_inv (enhanceLimiter (pstep env s ev)) \<and> limit (enhanceLimiter (pstep env s ev)) = L"
proof (cases ev)
  case (EnhResume i)
  then show ?thesis using enter_event_inv[OF assms] by (simp add: enh_enter_def Let_def)
next
  case (EnhSettle i)
  then show ?thesis using enter_event_inv[OF assms] assms by (simp add: Let_def)
next
  case (OcrSettle i)
  then show ?thesis using assms by (simp split: sum.splits)
qed (use assms in simp_all)

lemma ocr_limiter_step:
  assumes "limiter_inv (ocrLimiter s) \<and> limit (ocrLimiter s) = L"
  shows "limiter_inv (ocrLimiter (pstep env s ev)) \<and> limit (ocrLimiter (pstep env s ev)) = L"
proof (cases ev)
  case (EnhResume i)
  then show ?thesis using assms by (simp add: enh_enter_def Let_def)
next
  case (EnhSettle i)
  then show ?thesis using assms by (simp add: Let_def)
next
  case (OcrResume i)
  then show ?thesis using enter_event_inv[OF assms] by simp
next
  case (OcrSettle i)
  then show ?thesis using enter_event_inv[OF assms] assms by (simp split: sum.splits)
qed (use assms in simp_all)

lemma enh_limiter_run:
  "limiter_inv (enhanceLimiter s) \<and> limit (enhanceLimiter s) = L \<Longrightarrow>
   limiter_inv (enhanceLimiter (foldl (pstep env) s evs)) \<and>
   limit (enhanceLimiter (foldl (pstep env) s evs)) = L"
proof (induction evs arbitrary: s)
  case Nil then show ?case by simp
next
  case (Cons ev evs)
  from enh_limiter_step[OF Cons.prems, of env ev] Cons.IH show ?case by simp
qed

lemma ocr_limiter_run:
  "limiter_inv (ocrLimiter s) \<and> limit (ocrLimiter s) = L \<Longrightarrow>
   limiter_inv (ocrLimiter (foldl (pstep env) s evs)) \<and>
   limit (ocrLimiter (foldl (pstep env) s evs)) = L"
proof (induction evs arbitrary: s)
  case Nil then show ?case by simp
next
  case (Cons ev evs)
  from ocr_limiter_step[OF Cons.prems, of env ev] Cons.IH show ?case by simp
qed

lemma enh_limiter_calls:
  "limiter_inv (enhanceLimiter s) \<and> limit (enhanceLimiter s) = L \<Longrightarrow>
   limiter_inv (enhanceLimiter (foldl (\<lambda>s i. enh_enter i (Call i) s) s is)) \<and>
   limit (enhanceLimiter (foldl (\<lambda>s i. enh_enter i (Call i) s) s is)) = L"
proof (induction "is" arbitrary: s)
  case Nil then show ?case by simp
next
  case (Cons a as)
  have "limiter_inv (enhanceLimiter (enh_enter a (Call a) s)) \<and>
        limit (enhanceLimiter (enh_enter a (Call a) s)) = L"
    using enter_event_inv[OF Cons.prems] by (simp add: enh_enter_def Let_def)
  then show ?case using Cons.IH by simp
qed

lemma ocr_calls_keep_enh:
  "enhanceLimiter (foldl (\<lambda>s i. s\<lparr>ocrLimiter := limiter_step (ocrLimiter s) (Call i)\<rparr>) s is)
     = enhanceLimiter s"
  by (induction "is" arbitrary: s) simp_all

lemma enh_calls_keep_ocr:
  "ocrLimiter (foldl (\<lambda>s i. enh_enter i (Call i) s) s is) = ocrLimiter s"
  by (induction "is" arbitrary: s) (simp_all add: enh_enter_def Let_def)

lemma ocr_limiter_calls:
  "limiter_inv (ocrLimiter s) \<and> limit (ocrLimiter s) = L \<Longrightarrow>
   limiter_inv (ocrLimiter (foldl (\<lambda>s i. s\<lparr>ocrLimiter := limiter_step (ocrLimiter s) (Call i)\<rparr>) s is)) \<and>
   limit (ocrLimiter (foldl (\<lambda>s i. s\<lparr>ocrLimiter := limiter_step (ocrLimiter s) (Call i)\<rparr>) s is)) = L"
proof (induction "is" arbitrary: s)
  case Nil then show ?case by simp
next
  case (Cons a as)
  have "limiter_inv (ocrLimiter (s\<lparr>ocrLimiter := limiter_step (ocrLimiter s) (Call a)\<rparr>)) \<and>
        limit (ocrLimiter (s\<lparr>ocrLimiter := limiter_step (ocrLimiter s) (Call a)\<rparr>)) = L"
    using enter_event_inv[OF Cons.prems] by simp
  then show ?case using Cons.IH by simp
qed

lemma limit_create: "limit (createConcurrencyLimiter L n) = L"
  by (simp add: createConcurrencyLimiter_def)

lemma enh_limiter_start:
  "limiter_inv (enhanceLimiter (pstart env n)) \<and> limit (enhanceLimiter (pstart env n)) = conc_enh env"
  unfolding pstart_def Let_def ocr_calls_keep_enh
  by (rule enh_limiter_calls) (simp add: limiter_inv_init limit_create)

lemma ocr_limiter_start:
  "limiter_inv (ocrLimiter (pstart env n)) \<and> limit (ocrLimiter (pstart env n)) = conc_ocr env"
  unfolding pstart_def Let_def
  by (rule ocr_limiter_calls) (simp add: enh_calls_keep_ocr limiter_inv_init limit_create)

lemma raster_limiter_step:
  assumes "limiter_inv (limiter s) \<and> limit (limiter s) = L"
  shows "limiter_inv (limiter (rstep env s ev)) \<and> limit (limiter (rstep env s ev)) = L"
proof (cases ev)
  case (DrawResume t)
  then show ?thesis using enter_event_inv[OF assms] by (simp add: draw_enter_def Let_def)
next
  case (DrawSettle t)
  then show ?thesis using enter_event_inv[OF assms] assms by simp
qed (use assms in simp_all)

lemma raster_limiter_run:
  "limiter_inv (limiter s) \<and> limit (limiter s) = L \<Longrightarrow>
   limiter_inv (limiter (foldl (rstep env) s evs)) \<and> limit (limiter (foldl (rstep env) s evs)) = L"
proof (induction evs arbitrary: s)
  case Nil then show ?case by simp
next
  case (Cons ev evs)
  from raster_limiter_step[OF Cons.prems, of env ev] Cons.IH show ?case by simp
qed

lemma raster_limiter_calls:
  "limiter_inv (limiter s) \<and> limit (limiter s) = L \<Longrightarrow>
   limiter_inv (limiter (foldl (\<lambda>s t. draw_enter t (Call t) s) s ts)) \<and>
   limit (limiter (foldl (\<lambda>s t. draw_enter t (Call t) s) s ts)) = L"
proof (induction ts arbitrary: s)
  case Nil then show ?case by simp
next
  case (Cons a as)
  have "limiter_inv (limiter (draw_enter a (Call a) s)) \<and> limit (limiter (draw_enter a (Call a) s)) = L"
    using enter_event_inv[OF Cons.prems] by (simp add: draw_enter_def Let_def)
  then show ?case using Cons.IH by simp
qed

lemma raster_limiter_start:
  "limiter_inv (limiter (rstart env n)) \<and> limit (limiter (rstart env n)) = conc_pdf env"
  unfolding rstart_def
  by (rule raster_limiter_calls) (simp add: limiter_inv_init limit_create)


subsection \<open>The calls of the tasks that outlive a rejection\<close>

lemma rstep_calls:
  "c \<in> set (rcalls (rstep env s ev)) \<Longrightarrow> c \<in> set (rcalls s) \<or> (\<exists>p. c = MutoolDraw p)"
  by (cases ev) (auto simp: draw_enter_def Let_def split: if_splits)

lemma rrun_calls:
  "c \<in> set (rcalls (foldl (rstep env) s evs)) \<Longrightarrow> c \<in> set (rcalls s) \<or> (\<exists>p. c = MutoolDraw p)"
proof (induction evs arbitrary: s)
  case Nil then show ?case by simp
next
  case (Cons ev evs)
  from Cons.IH[of "rstep env s ev"] Cons.prems
  have "c \<in> set (rcalls (rstep env s ev)) \<or> (\<exists>p. c = MutoolDraw p)" by simp
  then show ?case using rstep_calls[of c env s ev] by blast
qed

lemma pstep_calls:
  "c \<in> set (pcalls (pstep env s ev)) \<Longrightarrow>
   c \<in> set (pcalls s) \<or> (\<exists>i. c = Enhance i) \<or> (\<exists>i. c = Recognize i)"
  by (cases ev) (auto simp: enh_enter_def Let_def split: if_splits sum.splits)

lemma prun_calls:
  "c \<in> set (pcalls (foldl (pstep env) s evs)) \<Longrightarrow>
   c \<in> set (pcalls s) \<or> (\<exists>i. c = Enhance i) \<or> (\<exists>i. c = Recognize i)"
proof (induction evs arbitrary: s)
  case Nil then show ?case by simp
next
  case (Cons ev evs)
  from Cons.IH[of "pstep env s ev"] Cons.prems
  have "c \<in> set (pcalls (pstep env s ev)) \<or> (\<exists>i. c = Enhance i) \<or> (\<exists>i. c = Recognize i)"
    by simp
  then show ?case using pstep_calls[of c env s ev] by blast
qed

lemma raster_stragglers_kind:
  "c \<in> set (raster_stragglers env s evs) \<Longrightarrow> \<exists>p. c = MutoolDraw p"
  using rrun_calls[of c env "s\<lparr>rcalls := []\<rparr>" evs] by (simp add: raster_stragglers_def)

lemma pipeline_stragglers_kind:
  "c \<in> set (pipeline_stragglers env s evs) \<Longrightarrow> (\<exists>i. c = Enhance i) \<or> (\<exists>i. c = Recognize i)"
  using prun_calls[of c env "s\<lparr>pcalls := []\<rparr>" evs] by (simp add: pipeline_stragglers_def)

lemma convert_late_kind:
  "convertPdfToPngImages env evs w = (w', out, late) \<Longrightarrow> c \<in> set late \<Longrightarrow> \<exists>p. c = MutoolDraw p"
  by (auto simp: convertPdfToPngImages_def Let_def dest: raster_stragglers_kind
           split: prod.splits option.splits sum.splits if_splits)

lemma stragglers_kind:
  assumes "c \<in> set (stragglers env markers evs)"
  shows "(\<exists>p. c = MutoolDraw p) \<or> (\<exists>i. c = Enhance i) \<or> (\<exists>i. c = Recognize i)"
  using assms
  by (auto simp: stragglers_def tryBlock_def Let_def
           dest: convert_late_kind pipeline_stragglers_kind
           split: prod.splits option.splits completion.splits if_splits)

lemma stragglers_none:
  "tryBody env markers evs = (w, Returned x) \<Longrightarrow> stragglers env markers evs = []"
  by (auto simp: stragglers_def tryBody_def tryBlock_def Let_def dest: convert_Returned
           split: prod.splits option.splits completion.splits if_splits)

lemma run_Raised:
  assumes "runOcrProcessingPipeline env markers evs = (w, Raised e)" and "rm_res env 0 = None"
  shows "\<exists>w0. tryBody env markers evs = (w0, Raised e)
           \<and> w = \<lparr>calls = calls w0 @ Rm # stragglers env markers evs, ws_exists = False\<rparr>"
  using assms
  by (auto simp: runOcrProcessingPipeline_def cleanup_and_rethrow_def
           split: prod.splits option.splits completion.splits)

lemma run_Returned_world:
  assumes "runOcrProcessingPipeline env markers evs = (w, Returned r)"
  shows "\<exists>w0 x. tryBody env markers evs = (w0, Returned x)
           \<and> w = \<lparr>calls = calls w0 @ [Rm], ws_exists = False\<rparr>"
  using assms
  by (auto simp: runOcrProcessingPipeline_def cleanup_and_rethrow_def
           split: prod.splits option.splits completion.splits)

subsection \<open>The page count\<close>

lemma digit_val_10: "digit_val 10 c = (if is_digit c then Some (c - 48) else None)"
  by (auto simp: digit_val_def is_digit_def Let_def)

lemma scan_digits_10:
  "scan_digits 10 s acc = foldl (\<lambda>a c. a * 10 + (c - 48)) acc (takeWhile is_digit s)"
  by (induction s arbitrary: acc) (simp_all add: digit_val_10)

lemma dropWhile_trimmed: "trimmed s \<Longrightarrow> dropWhile is_ws s = s"
  by (cases s) (simp_all add: trimmed_def)

lemma parseInt_decimal:
  assumes "dropWhile is_ws out = out" and "\<not> hex_prefixed out"
  shows "parseInt out = (if leading_number out then Some (leading_value out) else None)"
proof (cases "unsigned out")
  case Nil
  then show ?thesis using assms
    by (auto simp: parseInt_def unsigned_def leading_number_def Let_def split: list.splits if_splits)
next
  case (Cons c cs)
  have u: "(case out of c # r \<Rightarrow> if c = 45 \<or> c = 43 then r else out | [] \<Rightarrow> []) = unsigned out"
    by (auto simp: unsigned_def split: list.splits)
  have n: "(case out of c # _ \<Rightarrow> c = 45 | [] \<Rightarrow> False) = negative out"
    by (simp add: negative_def)
  have h: "(case unsigned out of a # b # _ \<Rightarrow> a = 48 \<and> (b = 120 \<or> b = 88) | _ \<Rightarrow> False) = False"
    using assms(2) by (simp add: hex_prefixed_def)
  show ?thesis
    unfolding parseInt_def assms(1) Let_def u n h
    using Cons
    by (simp add: leading_number_def leading_value_def digits_value_def digit_val_10 scan_digits_10)
qed

lemma no_number_no_hex: "\<not> leading_number out \<Longrightarrow> \<not> hex_prefixed out"
  by (auto simp: leading_number_def hex_prefixed_def is_digit_def split: list.splits)

lemma leading_value_pos:
  assumes "1 \<le> leading_value out"
  shows "leading_number out \<and> \<not> hex_prefixed out"
proof (cases "unsigned out")
  case Nil
  then show ?thesis using assms by (simp add: leading_value_def digits_value_def)
next
  case (Cons c cs)
  show ?thesis
  proof (cases "is_digit c")
    case False
    then show ?thesis using assms Cons by (simp add: leading_value_def digits_value_def)
  next
    case True
    have "\<not> hex_prefixed out"
    proof
      assume "hex_prefixed out"
      then obtain b bs where cs: "cs = b # bs" and c: "c = 48" and b: "b = 120 \<or> b = 88"
        using Cons by (auto simp: hex_prefixed_def split: list.splits)
      then have "takeWhile is_digit (unsigned out) = [48]"
        using Cons by (auto simp: is_digit_def)
      then show False using assms by (simp add: leading_value_def digits_value_def)
    qed
    then show ?thesis using True Cons by (simp add: leading_number_def)
  qed
qed

lemma count_refused:
  assumes "show_res env = Inr stdout" and "out = trim stdout"
    and "\<not> leading_number out \<or> (\<not> hex_prefixed out \<and> leading_value out < 1)"
  shows "getPdfPageCount env = Inl (InvalidPageCount out)"
proof -
  have t: "dropWhile is_ws out = out" using assms(2) trimmed_trim dropWhile_trimmed by simp
  have nh: "\<not> hex_prefixed out" using assms(3) no_number_no_hex by blast
  from parseInt_decimal[OF t nh] assms(3)
  have "parseInt out = None \<or> (\<exists>n. parseInt out = Some n \<and> n < 1)" by auto
  then show ?thesis using assms(1,2) by (auto simp: getPdfPageCount_def Let_def)
qed

lemma count_accepted:
  assumes "show_res env = Inr stdout" and "out = trim stdout" and "1 \<le> leading_value out"
  shows "getPdfPageCount env = Inr (leading_value out)"
proof -
  have t: "dropWhile is_ws out = out" using assms(2) trimmed_trim dropWhile_trimmed by simp
  from leading_value_pos[OF assms(3)] have n: "leading_number out" and h: "\<not> hex_prefixed out"
    by simp_all
  from parseInt_decimal[OF t h] n
  have "parseInt out = Some (leading_value out)" by simp
  then show ?thesis using assms(1,2,3) by (auto simp: getPdfPageCount_def Let_def)
qed

lemma tryBlock_refused:
  assumes "mkdir_res env 0 = None" and "mkdir_res env 1 = None" and "write_res env = None"
    and "mkdir_res env 2 = None" and "getPdfPageCount env = Inl e"
  shows "tryBlock env markers evs =
           (\<lparr>calls = [Mkdir 0, Mkdir 1, WriteFile, Mkdir 2, MutoolShow], ws_exists = True\<rparr>,
            Raised e, [])"
  using assms by (simp add: tryBlock_def do_mkdir_def convertPdfToPngImages_def)

section \<open>Evaluating the concrete runs\<close>

declare await_raster.simps [simp del]
declare await_pipeline.simps [simp del]

lemma await_raster_settled: "rsettled s \<Longrightarrow> await_raster env s evs = (s, evs)"
  by (cases evs) (simp_all add: await_raster.simps)

lemma await_raster_step:
  "\<not> rsettled s \<Longrightarrow> await_raster env s (ev # evs) = await_raster env (rstep env s ev) evs"
  by (simp add: await_raster.simps)

lemma await_pipeline_settled: "psettled s \<Longrightarrow> await_pipeline env s evs = (s, evs)"
  by (cases evs) (simp_all add: await_pipeline.simps)

lemma await_pipeline_step:
  "\<not> psettled s \<Longrightarrow> await_pipeline env s (ev # evs) = await_pipeline env (pstep env s ev) evs"
  by (simp add: await_pipeline.simps)

lemmas await_eval = rsettled_def psettled_def await_raster_settled await_raster_step
  await_pipeline_settled await_pipeline_step

lemmas limiter_eval = holds_def first_error_def all_fulfilled_def limiter_step.simps enter_def leave_def
  createConcurrencyLimiter_def Let_def

subsection \<open>Three pages\<close>

lemma len_files3: "length files3 = 3"
  by (simp add: files3_def)

lemma env3_fields:
  "mkdir_res env3 k = None" "write_res env3 = None" "rm_res env3 k = None"
  "list_res env3 = Inr files3" "show_res env3 = Inr (js ''3'' @ [10])"
  "draw_res env3 k = None" "enhance_res env3 k = None" "client env3" "read_res env3 k = None"
  "conc_pdf env3 = Finite 2" "conc_enh env3 = Finite 2" "conc_ocr env3 = Finite 3"
  by (simp_all add: env3_def)

lemma env3_ocr:
  "ocr_res env3 0 = Inr (Document (Some (js ''A'')))"
  "ocr_res env3 1 = Inr (Document None)"
  "ocr_res env3 2 = Inr (Document (Some (js ''C'' @ [13, 10])))"
  by (simp_all add: env3_def)

lemma env3_body:
  "ocr_body env3 0 = Inr (js ''A'')" "ocr_body env3 1 = Inr []" "ocr_body env3 2 = Inr (js ''C'')"
  using env3_ocr
  by (simp_all add: ocr_body_def performDocumentAiOcrOnImage_def env3_fields js_def eval_norm)

lemma count3: "show_res env = Inr (js ''3'' @ [10]) \<Longrightarrow> getPdfPageCount env = Inr 3"
  by (simp add: getPdfPageCount_def parseInt_def digit_val_def js_def trim_def is_ws_def)

lemma raster3:
  assumes "conc_pdf env = Finite 2" and "\<And>p. draw_res env p = None"
  shows "await_raster env (rstart env 3) (draw3 @ rest) =
     (\<lparr>limiter = \<lparr>limit = Finite 2, active = 0, queue = [], phases = [Done None, Done None, Done None]\<rparr>,
       rrejection = None, rcalls = [MutoolDraw 1, MutoolDraw 2, MutoolDraw 3]\<rparr>, rest)"
  using assms
  by (simp add: draw3_def rstart_def draw_enter_def limiter_eval await_eval eval_nat_numeral)

lemma conv3:
  assumes "mkdir_res env 2 = None" and "show_res env = Inr (js ''3'' @ [10])"
    and "conc_pdf env = Finite 2" and "\<And>p. draw_res env p = None" and "list_res env = Inr files3"
  shows "convertPdfToPngImages env (draw3 @ rest) w =
     (w\<lparr>calls := calls w @ [Mkdir 2, MutoolShow, MutoolDraw 1, MutoolDraw 2, MutoolDraw 3, ReadDir],
        ws_exists := True\<rparr>,
      Returned (files3, rest), [])"
  using assms(1,5) count3[OF assms(2)] raster3[OF assms(3,4), of rest]
  by (simp add: convertPdfToPngImages_def do_mkdir_def rsettled_def all_fulfilled_def)

lemma pipeline3a:
  "await_pipeline env3 (pstart env3 3) pipe_a =
     (done3 [Enhance 0, Enhance 1, Enhance 2, Recognize 0, Recognize 1, Recognize 2], [])"
  using env3_body
  by (simp add: pipe_a_def done3_def env3_fields pstart_def enh_enter_def limiter_eval
      await_eval eval_nat_numeral)

lemma pipeline3b:
  "await_pipeline env3 (pstart env3 3) pipe_b =
     (done3 [Enhance 0, Enhance 1, Enhance 2, Recognize 2, Recognize 1, Recognize 0], [])"
  using env3_body
  by (simp add: pipe_b_def done3_def env3_fields pstart_def enh_enter_def limiter_eval
      await_eval eval_nat_numeral)

lemma done3_fields:
  "pcalls (done3 cs) = cs" "rejection (done3 cs) = None" "psettled (done3 cs)"
  "pageResults (done3 cs) = [Some (js ''A''), Some [], Some (js ''C'')]"
  by (simp_all add: done3_def psettled_def all_fulfilled_def)

lemma block3a:
  "tryBlock env3 m (draw3 @ pipe_a) =
     (\<lparr>calls = [Mkdir 0, Mkdir 1, WriteFile, Mkdir 2, MutoolShow, MutoolDraw 1, MutoolDraw 2,
                MutoolDraw 3, ReadDir, Enhance 0, Enhance 1, Enhance 2,
                Recognize 0, Recognize 1, Recognize 2],
       ws_exists = True\<rparr>,
      Returned (assemble_from m [Some (js ''A''), Some [], Some (js ''C'')] 0 [], 3), [])"
  using conv3[of env3 pipe_a]
  by (simp add: tryBlock_def do_mkdir_def env3_fields len_files3 pipeline3a done3_fields)

lemma block3b:
  "tryBlock env3 m (draw3 @ pipe_b) =
     (\<lparr>calls = [Mkdir 0, Mkdir 1, WriteFile, Mkdir 2, MutoolShow, MutoolDraw 1, MutoolDraw 2,
                MutoolDraw 3, ReadDir, Enhance 0, Enhance 1, Enhance 2,
                Recognize 2, Recognize 1, Recognize 0],
       ws_exists = True\<rparr>,
      Returned (assemble_from m [Some (js ''A''), Some [], Some (js ''C'')] 0 [], 3), [])"
  using conv3[of env3 pipe_b]
  by (simp add: tryBlock_def do_mkdir_def env3_fields len_files3 pipeline3b done3_fields)

lemma try3a:
  "tryBody env3 m (draw3 @ pipe_a) =
     (\<lparr>calls = [Mkdir 0, Mkdir 1, WriteFile, Mkdir 2, MutoolShow, MutoolDraw 1, MutoolDraw 2,
                MutoolDraw 3, ReadDir, Enhance 0, Enhance 1, Enhance 2,
                Recognize 0, Recognize 1, Recognize 2],
       ws_exists = True\<rparr>,
      Returned (assemble_from m [Some (js ''A''), Some [], Some (js ''C'')] 0 [], 3))"
  by (simp add: tryBody_def block3a)

lemma try3b:
  "tryBody env3 m (draw3 @ pipe_b) =
     (\<lparr>calls = [Mkdir 0, Mkdir 1, WriteFile, Mkdir 2, MutoolShow, MutoolDraw 1, MutoolDraw 2,
                MutoolDraw 3, ReadDir, Enhance 0, Enhance 1, Enhance 2,
                Recognize 2, Recognize 1, Recognize 0],
       ws_exists = True\<rparr>,
      Returned (assemble_from m [Some (js ''A''), Some [], Some (js ''C'')] 0 [], 3))"
  by (simp add: tryBody_def block3b)

lemma asm3_plain:
  "assemble_from False [Some (js ''A''), Some [], Some (js ''C'')] 0 [] = [65, 10, 10, 10, 10, 67]"
  by (simp add: assemble_from.simps js_def)

lemma trim3: "trim [65, 10, 10, 10, 10, 67] = [65, 10, 10, 10, 10, 67]"
  by (simp add: trim_def is_ws_def)

lemma run3a:
  "runOcrProcessingPipeline env3 False (draw3 @ pipe_a) =
     (\<lparr>calls = [Mkdir 0, Mkdir 1, WriteFile, Mkdir 2, MutoolShow, MutoolDraw 1, MutoolDraw 2,
                MutoolDraw 3, ReadDir, Enhance 0, Enhance 1, Enhance 2,
                Recognize 0, Recognize 1, Recognize 2, Rm],
       ws_exists = False\<rparr>, Returned result3)"
  by (simp add: runOcrProcessingPipeline_def try3a env3_fields asm3_plain trim3 result3_def)

lemma run3b:
  "runOcrProcessingPipeline env3 False (draw3 @ pipe_b) =
     (\<lparr>calls = [Mkdir 0, Mkdir 1, WriteFile, Mkdir 2, MutoolShow, MutoolDraw 1, MutoolDraw 2,
                MutoolDraw 3, ReadDir, Enhance 0, Enhance 1, Enhance 2,
                Recognize 2, Recognize 1, Recognize 0, Rm],
       ws_exists = False\<rparr>, Returned result3)"
  by (simp add: runOcrProcessingPipeline_def try3b env3_fields asm3_plain trim3 result3_def)

lemma mid3_eval:
  "mid3 = \<lparr>enhanceLimiter = \<lparr>limit = Finite 2, active = 1, queue = [], phases = [Done None, Holding, Woken]\<rparr>,
           ocrLimiter = \<lparr>limit = Finite 3, active = 3, queue = [], phases = [Holding, Holding, Holding]\<rparr>,
           enhancedPromises = [True, False, False], begun = [True, False, False],
           pageResults = [None, None, None], rejection = None,
           pcalls = [Enhance 0, Enhance 1, Recognize 0]\<rparr>"
  by (simp add: mid3_def env3_fields pstart_def enh_enter_def limiter_eval eval_nat_numeral)

subsection \<open>Three pages, a conversion fails\<close>

lemma env3d_fields:
  "mkdir_res env3d k = None" "write_res env3d = None" "rm_res env3d k = None"
  "show_res env3d = Inr (js ''3'' @ [10])"
  "draw_res env3d 1 = Some (External 3)" "draw_res env3d 2 = None" "draw_res env3d 3 = None"
  "conc_pdf env3d = Finite 1"
  by (simp_all add: env3d_def env3_def)

lemma raster3d:
  "await_raster env3d (rstart env3d 3) draw3d =
     (\<lparr>limiter = \<lparr>limit = Finite 1, active = 0, queue = [2],
                   phases = [Done (Some (External 3)), Woken, Queued]\<rparr>,
       rrejection = Some (External 3), rcalls = [MutoolDraw 1]\<rparr>,
      [DrawResume 1, DrawSettle 1, DrawResume 2])"
  using env3d_fields(5-7)
  by (simp add: draw3d_def env3d_fields(8) rstart_def draw_enter_def limiter_eval await_eval
      eval_nat_numeral)

lemma woken3d:
  "raster_woken env3d
     \<lparr>limiter = \<lparr>limit = Finite 1, active = 0, queue = [2],
                  phases = [Done (Some (External 3)), Woken, Queued]\<rparr>,
      rrejection = Some (External 3), rcalls = [MutoolDraw 1]\<rparr>
   = \<lparr>limiter = \<lparr>limit = Finite 1, active = 1, queue = [2],
                  phases = [Done (Some (External 3)), Holding, Queued]\<rparr>,
      rrejection = Some (External 3), rcalls = [MutoolDraw 1, MutoolDraw 2]\<rparr>"
  by (simp add: raster_woken_def draw_enter_def limiter_eval eval_nat_numeral upt_rec)

lemma late3d:
  "raster_stragglers env3d
     \<lparr>limiter = \<lparr>limit = Finite 1, active = 1, queue = [2],
                  phases = [Done (Some (External 3)), Holding, Queued]\<rparr>,
      rrejection = Some (External 3), rcalls = [MutoolDraw 1, MutoolDraw 2]\<rparr>
     [DrawResume 1, DrawSettle 1, DrawResume 2] = [MutoolDraw 3]"
  using env3d_fields(5-7)
  by (simp add: raster_stragglers_def draw_enter_def limiter_eval eval_nat_numeral)

lemma block3d:
  "tryBlock env3d m draw3d =
     (\<lparr>calls = [Mkdir 0, Mkdir 1, WriteFile, Mkdir 2, MutoolShow, MutoolDraw 1, MutoolDraw 2],
       ws_exists = True\<rparr>, Raised (External 3), [MutoolDraw 3])"
  using count3[OF env3d_fields(4)] raster3d woken3d late3d
  by (simp add: tryBlock_def convertPdfToPngImages_def do_mkdir_def env3d_fields(1-2) rsettled_def)

lemma run3d:
  "runOcrProcessingPipeline env3d m draw3d =
     (\<lparr>calls = [Mkdir 0, Mkdir 1, WriteFile, Mkdir 2, MutoolShow, MutoolDraw 1, MutoolDraw 2, Rm,
                MutoolDraw 3],
       ws_exists = False\<rparr>, Raised (External 3))"
  by (simp add: runOcrProcessingPipeline_def tryBody_def stragglers_def block3d
      cleanup_and_rethrow_def env3d_fields(3))

subsection \<open>Three pages, an enhancement fails\<close>

lemma env3e_fields:
  "mkdir_res env3e k = None" "write_res env3e = None" "rm_res env3e k = None"
  "list_res env3e = Inr files3" "show_res env3e = Inr (js ''3'' @ [10])"
  "draw_res env3e k = None" "client env3e" "read_res env3e k = None"
  "conc_pdf env3e = Finite 2" "conc_enh env3e = Finite 2" "conc_ocr env3e = Finite 3"
  "enhance_res env3e 0 = Some (External 4)" "enhance_res env3e 1 = None" "enhance_res env3e 2 = None"
  by (simp_all add: env3e_def env3_def)

lemma pipeline3e:
  "await_pipeline env3e (pstart env3e 3) pipe3e =
     (\<lparr>enhanceLimiter = \<lparr>limit = Finite 2, active = 1, queue = [],
                          phases = [Done (Some (External 4)), Holding, Woken]\<rparr>,
       ocrLimiter = \<lparr>limit = Finite 3, active = 3, queue = [], phases = [Holding, Holding, Holding]\<rparr>,
       enhancedPromises = [False, False, False], begun = [False, False, False],
       pageResults = [None, None, None], rejection = Some (External 4),
       pcalls = [Enhance 0, Enhance 1]\<rparr>,
      [EnhResume 2, EnhSettle 1, OcrStart 1])"
  using env3e_fields(12-14)
  by (simp add: pipe3e_def env3e_fields(10-11) pstart_def enh_enter_def limiter_eval await_eval
      eval_nat_numeral)

lemma woken3e:
  "pipeline_woken env3e
     \<lparr>enhanceLimiter = \<lparr>limit = Finite 2, active = 1, queue = [],
                          phases = [Done (Some (External 4)), Holding, Woken]\<rparr>,
       ocrLimiter = \<lparr>limit = Finite 3, active = 3, queue = [], phases = [Holding, Holding, Holding]\<rparr>,
       enhancedPromises = [False, False, False], begun = [False, False, False],
       pageResults = [None, None, None], rejection = Some (External 4),
       pcalls = [Enhance 0, Enhance 1]\<rparr>
   = \<lparr>enhanceLimiter = \<lparr>limit = Finite 2, active = 2, queue = [],
                          phases = [Done (Some (External 4)), Holding, Holding]\<rparr>,
       ocrLimiter = \<lparr>limit = Finite 3, active = 3, queue = [], phases = [Holding, Holding, Holding]\<rparr>,
       enhancedPromises = [False, False, False], begun = [False, False, False],
       pageResults = [None, None, None], rejection = Some (External 4),
       pcalls = [Enhance 0, Enhance 1, Enhance 2]\<rparr>"
  by (simp add: pipeline_woken_def enh_enter_def limiter_eval eval_nat_numeral upt_rec)

lemma late3e:
  "pipeline_stragglers env3e
     \<lparr>enhanceLimiter = \<lparr>limit = Finite 2, active = 2, queue = [],
                          phases = [Done (Some (External 4)), Holding, Holding]\<rparr>,
       ocrLimiter = \<lparr>limit = Finite 3, active = 3, queue = [], phases = [Holding, Holding, Holding]\<rparr>,
       enhancedPromises = [False, False, False], begun = [False, False, False],
       pageResults = [None, None, None], rejection = Some (External 4),
       pcalls = [Enhance 0, Enhance 1, Enhance 2]\<rparr>
     [EnhResume 2, EnhSettle 1, OcrStart 1] = [Recognize 1]"
  using env3e_fields(12-14) env3e_fields(7) env3e_fields(8)[of 1]
  by (simp add: pipeline_stragglers_def enh_enter_def limiter_eval eval_nat_numeral)

lemma block3e:
  "tryBlock env3e m (draw3 @ pipe3e) =
     (\<lparr>calls = [Mkdir 0, Mkdir 1, WriteFile, Mkdir 2, MutoolShow, MutoolDraw 1, MutoolDraw 2,
                MutoolDraw 3, ReadDir, Enhance 0, Enhance 1, Enhance 2],
       ws_exists = True\<rparr>, Raised (External 4), [Recognize 1])"
  using conv3[of env3e pipe3e] pipeline3e woken3e late3e
  by (simp add: tryBlock_def do_mkdir_def env3e_fields(1-6,9) len_files3 psettled_def)

lemma run3e:
  "runOcrProcessingPipeline env3e m (draw3 @ pipe3e) =
     (\<lparr>calls = [Mkdir 0, Mkdir 1, WriteFile, Mkdir 2, MutoolShow, MutoolDraw 1, MutoolDraw 2,
                MutoolDraw 3, ReadDir, Enhance 0, Enhance 1, Enhance 2, Rm, Recognize 1],
       ws_exists = False\<rparr>, Raised (External 4))"
  by (simp add: runOcrProcessingPipeline_def tryBody_def stragglers_def block3e
      cleanup_and_rethrow_def env3e_fields(3))

subsection \<open>One page\<close>

lemma len_files1: "length files1 = 1"
  by (simp add: files1_def)

lemma env1_fields:
  "mkdir_res env1 k = None" "write_res env1 = None" "rm_res env1 k = None"
  "list_res env1 = Inr files1" "show_res env1 = Inr (js ''1'' @ [10])"
  "draw_res env1 k = None" "enhance_res env1 k = None" "client env1" "read_res env1 k = None"
  "conc_pdf env1 = Finite 1" "conc_enh env1 = Finite 1" "conc_ocr env1 = Finite 1"
  "ocr_res env1 k = Inr (Document (Some (js ''Hello'')))"
  by (simp_all add: env1_def)

lemma normalize_Hello: "normalizeExtractedText (js ''Hello'') = js ''Hello''"
  by (simp add: js_def eval_norm)

lemma body_Hello:
  "read_res env 0 = None \<Longrightarrow> client env \<Longrightarrow> ocr_res env 0 = Inr (Document (Some (js ''Hello''))) \<Longrightarrow>
   ocr_body env 0 = Inr (js ''Hello'')"
  by (simp add: ocr_body_def performDocumentAiOcrOnImage_def normalize_Hello)

lemma body_no_client: "read_res env 0 = None \<Longrightarrow> \<not> client env \<Longrightarrow> ocr_body env 0 = Inl TypeError"
  by (simp add: ocr_body_def performDocumentAiOcrOnImage_def)

lemma raster1:
  assumes "conc_pdf env = Finite 1" and "draw_res env 1 = None"
  shows "await_raster env (rstart env 1) (draw1 @ rest) =
     (\<lparr>limiter = \<lparr>limit = Finite 1, active = 0, queue = [], phases = [Done None]\<rparr>,
       rrejection = None, rcalls = [MutoolDraw 1]\<rparr>, rest)"
  using assms
  by (simp add: draw1_def rstart_def draw_enter_def limiter_eval await_eval)

lemma conv1:
  assumes "mkdir_res env 2 = None" and "getPdfPageCount env = Inr 1"
    and "conc_pdf env = Finite 1" and "draw_res env 1 = None" and "list_res env = Inr files1"
  shows "convertPdfToPngImages env (draw1 @ rest) w =
     (w\<lparr>calls := calls w @ [Mkdir 2, MutoolShow, MutoolDraw 1, ReadDir], ws_exists := True\<rparr>,
      Returned (files1, rest), [])"
  using assms(1,2,5) raster1[OF assms(3,4), of rest]
  by (simp add: convertPdfToPngImages_def do_mkdir_def rsettled_def all_fulfilled_def)

lemma pipeline1:
  assumes "conc_enh env = Finite 1" and "conc_ocr env = Finite 1" and "enhance_res env 0 = None"
    and "read_res env 0 = None" and "client env" and "ocr_body env 0 = Inr t"
  shows "await_pipeline env (pstart env 1) pipe1 =
     (\<lparr>enhanceLimiter = \<lparr>limit = Finite 1, active = 0, queue = [], phases = [Done None]\<rparr>,
       ocrLimiter = \<lparr>limit = Finite 1, active = 0, queue = [], phases = [Done None]\<rparr>,
       enhancedPromises = [True], begun = [True], pageResults = [Some t], rejection = None,
       pcalls = [Enhance 0, Recognize 0]\<rparr>, [])"
  using assms
  by (simp add: pipe1_def pstart_def enh_enter_def limiter_eval await_eval)

lemma pipeline9:
  assumes "conc_enh env = Finite 1" and "conc_ocr env = Finite 1" and "enhance_res env 0 = None"
    and "read_res env 0 = None" and "\<not> client env" and "ocr_body env 0 = Inl e"
  shows "await_pipeline env (pstart env 1) pipe1 =
     (\<lparr>enhanceLimiter = \<lparr>limit = Finite 1, active = 0, queue = [], phases = [Done None]\<rparr>,
       ocrLimiter = \<lparr>limit = Finite 1, active = 0, queue = [], phases = [Done (Some e)]\<rparr>,
       enhancedPromises = [True], begun = [True], pageResults = [None], rejection = Some e,
       pcalls = [Enhance 0]\<rparr>, [])"
  using assms
  by (simp add: pipe1_def pstart_def enh_enter_def limiter_eval await_eval)

lemma asm1: "assemble_from True [Some (js ''Hello'')] 0 [] =
    [10, 10] @ js ''===== PAGE 1 ====='' @ [10, 10] @ js ''Hello''"
  by (simp add: assemble_from.simps page_marker_def decimal.simps js_def)

lemma trim1: "trim ([10, 10] @ js ''===== PAGE 1 ====='' @ [10, 10] @ js ''Hello'')
    = js ''===== PAGE 1 ====='' @ [10, 10] @ js ''Hello''"
  by (simp add: trim_def is_ws_def js_def)

lemma block1:
  assumes "mkdir_res env 0 = None" and "mkdir_res env 1 = None" and "write_res env = None"
    and "mkdir_res env 2 = None" and "getPdfPageCount env = Inr 1"
    and "conc_pdf env = Finite 1" and "draw_res env 1 = None" and "list_res env = Inr files1"
    and "conc_enh env = Finite 1" and "conc_ocr env = Finite 1" and "enhance_res env 0 = None"
    and "read_res env 0 = None" and "client env"
    and "ocr_res env 0 = Inr (Document (Some (js ''Hello'')))"
  shows "tryBlock env True (draw1 @ pipe1) =
     (\<lparr>calls = [Mkdir 0, Mkdir 1, WriteFile, Mkdir 2, MutoolShow, MutoolDraw 1, ReadDir,
                Enhance 0, Recognize 0],
       ws_exists = True\<rparr>,
      Returned ([10, 10] @ js ''===== PAGE 1 ====='' @ [10, 10] @ js ''Hello'', 1), [])"
  using assms(1-3) conv1[OF assms(4-8), of pipe1]
    pipeline1[OF assms(9-13) body_Hello[OF assms(12-14)]]
  by (simp add: tryBlock_def do_mkdir_def len_files1 psettled_def all_fulfilled_def asm1)

lemma run_Hello:
  assumes "tryBlock env True evs =
     (\<lparr>calls = [Mkdir 0, Mkdir 1, WriteFile, Mkdir 2, MutoolShow, MutoolDraw 1, ReadDir,
                Enhance 0, Recognize 0],
       ws_exists = True\<rparr>,
      Returned ([10, 10] @ js ''===== PAGE 1 ====='' @ [10, 10] @ js ''Hello'', 1), [])"
    and "rm_res env 0 = None"
  shows "runOcrProcessingPipeline env True evs =
     (\<lparr>calls = [Mkdir 0, Mkdir 1, WriteFile, Mkdir 2, MutoolShow, MutoolDraw 1, ReadDir,
                Enhance 0, Recognize 0, Rm],
       ws_exists = False\<rparr>, Returned result1)"
  using assms trim1
  by (simp add: runOcrProcessingPipeline_def tryBody_def result1_def js_def)

lemma count1: "getPdfPageCount env1 = Inr 1"
  by (simp add: getPdfPageCount_def env1_fields parseInt_def digit_val_def js_def trim_def is_ws_def)

lemma run1:
  "runOcrProcessingPipeline env1 True (draw1 @ pipe1) =
     (\<lparr>calls = [Mkdir 0, Mkdir 1, WriteFile, Mkdir 2, MutoolShow, MutoolDraw 1, ReadDir,
                Enhance 0, Recognize 0, Rm],
       ws_exists = False\<rparr>, Returned result1)"
  by (rule run_Hello, rule block1) (simp_all add: env1_fields count1)

subsection \<open>One page, the page counter prints more than a number\<close>

lemma env1p_fields:
  "mkdir_res env1p k = None" "write_res env1p = None" "rm_res env1p k = None"
  "list_res env1p = Inr files1" "show_res env1p = Inr (js ''1 page'' @ [10])"
  "draw_res env1p k = None" "enhance_res env1p k = None" "client env1p" "read_res env1p k = None"
  "conc_pdf env1p = Finite 1" "conc_enh env1p = Finite 1" "conc_ocr env1p = Finite 1"
  "ocr_res env1p k = Inr (Document (Some (js ''Hello'')))"
  by (simp_all add: env1p_def env1_def)

lemma count1p: "getPdfPageCount env1p = Inr 1"
  by (simp add: getPdfPageCount_def env1p_fields parseInt_def digit_val_def js_def trim_def is_ws_def)

lemma run1p:
  "runOcrProcessingPipeline env1p True (draw1 @ pipe1) =
     (\<lparr>calls = [Mkdir 0, Mkdir 1, WriteFile, Mkdir 2, MutoolShow, MutoolDraw 1, ReadDir,
                Enhance 0, Recognize 0, Rm],
       ws_exists = False\<rparr>, Returned result1)"
  by (rule run_Hello, rule block1) (simp_all add: env1p_fields count1p)

subsection \<open>One page, no client\<close>

lemma env9_fields:
  "mkdir_res (env1\<lparr>client := False\<rparr>) k = None" "write_res (env1\<lparr>client := False\<rparr>) = None"
  "rm_res (env1\<lparr>client := False\<rparr>) k = None" "list_res (env1\<lparr>client := False\<rparr>) = Inr files1"
  "draw_res (env1\<lparr>client := False\<rparr>) k = None" "enhance_res (env1\<lparr>client := False\<rparr>) k = None"
  "\<not> client (env1\<lparr>client := False\<rparr>)" "read_res (env1\<lparr>client := False\<rparr>) k = None"
  "conc_pdf (env1\<lparr>client := False\<rparr>) = Finite 1" "conc_enh (env1\<lparr>client := False\<rparr>) = Finite 1"
  "conc_ocr (env1\<lparr>client := False\<rparr>) = Finite 1"
  by (simp_all add: env1_def)

lemma count9: "getPdfPageCount (env1\<lparr>client := False\<rparr>) = Inr 1"
  using count1 by (simp add: getPdfPageCount_def)

lemma block9:
  "tryBlock (env1\<lparr>client := False\<rparr>) True (draw1 @ pipe1) =
     (\<lparr>calls = [Mkdir 0, Mkdir 1, WriteFile, Mkdir 2, MutoolShow, MutoolDraw 1, ReadDir, Enhance 0],
       ws_exists = True\<rparr>, Raised TypeError, [])"
  using conv1[of "env1\<lparr>client := False\<rparr>" pipe1]
    pipeline9[of "env1\<lparr>client := False\<rparr>" TypeError] body_no_client[of "env1\<lparr>client := False\<rparr>"]
  by (simp add: tryBlock_def do_mkdir_def env1_fields count9 len_files1 psettled_def
      pipeline_stragglers_def pipeline_woken_def enh_enter_def limiter_step.simps)

lemma try9:
  "tryBody (env1\<lparr>client := False\<rparr>) True (draw1 @ pipe1) =
     (\<lparr>calls = [Mkdir 0, Mkdir 1, WriteFile, Mkdir 2, MutoolShow, MutoolDraw 1, ReadDir, Enhance 0],
       ws_exists = True\<rparr>, Raised TypeError)"
  by (simp add: tryBody_def block9)

lemma late9: "stragglers (env1\<lparr>client := False\<rparr>) True (draw1 @ pipe1) = []"
  by (simp add: stragglers_def block9)

subsection \<open>A limit that is not an integer\<close>

lemma limiter_half:
  "foldl limiter_step (createConcurrencyLimiter (Finite (3 / 2)) 3) [Call 0, Call 1, Call 2]
     = \<lparr>limit = Finite (3 / 2), active = 2, queue = [2], phases = [Holding, Holding, Queued]\<rparr>"
  by (simp add: limiter_eval eval_nat_numeral)
section \<open>The claims about the limiter and the pipeline\<close>

text \<open>
  Claim C1, as stated, fails for a limit that is not an integer. The limit is whatever
  number the configuration holds, and the loop lets an invocation in while the counter is
  below it: with the limit 1.5 two permits are out at once, more than the limit. In a run
  configured with 1.5 enhancements at a time, two enhancements are started together.
\<close>

theorem limiter_bound_counterexample:
  "(1::rat) \<le> 3 / 2
   \<and> phases (foldl limiter_step (createConcurrencyLimiter (Finite (3 / 2)) 3) [Call 0, Call 1, Call 2])
       = [Holding, Holding, Queued]
   \<and> permits (foldl limiter_step (createConcurrencyLimiter (Finite (3 / 2)) 3) [Call 0, Call 1, Call 2]) = 2
   \<and> (3 / 2 :: rat)
       < of_int (active (foldl limiter_step (createConcurrencyLimiter (Finite (3 / 2)) 3)
                           [Call 0, Call 1, Call 2]))
   \<and> pcalls (pstart (env3\<lparr>conc_enh := Finite (3 / 2)\<rparr>) 3) = [Enhance 0, Enhance 1]
   \<and> permits (enhanceLimiter (pstart (env3\<lparr>conc_enh := Finite (3 / 2)\<rparr>) 3)) = 2"
  by (simp add: limiter_half permits_def pstart_def enh_enter_def limiter_eval eval_nat_numeral)

text \<open>
  Claim C1, amended. Take a limiter made with any limit and any sequence of calls,
  resumptions and settlements. After it, the number of permits that are out is the
  counter \<open>active\<close>; and whichever way the function of a permit holder ends, returning or
  throwing, its permit is given back: the counter and the number of permits go down by
  one. When the limit is an integer of at least 1, the number of permits that are out is
  at most the limit; when it is any finite number \<open>q\<close> of at least 1, the number of permits
  is below \<open>q + 1\<close>. In particular each of the three limiters of a run, under any
  schedule, has at most as many permits out as its configured limit, when that limit is
  an integer of at least 1.
\<close>

theorem limiter_bound:
  assumes "g = foldl limiter_step (createConcurrencyLimiter mx n) evs"
  shows "active g = int (permits g)
     \<and> (\<forall>t r. t < length (phases g) \<and> phases g ! t = Holding \<longrightarrow>
            active (limiter_step g (Settle t r)) = active g - 1 \<and>
            phases (limiter_step g (Settle t r)) ! t = Done r \<and>
            int (permits (limiter_step g (Settle t r))) = int (permits g) - 1)
     \<and> (\<forall>L. 1 \<le> L \<and> mx = Finite (of_int L) \<longrightarrow> int (permits g) \<le> L)
     \<and> (\<forall>q. 1 \<le> q \<and> mx = Finite q \<longrightarrow> of_int (int (permits g)) < q + 1)
     \<and> (\<forall>L. 1 \<le> L \<and> conc_pdf env = Finite (of_int L) \<longrightarrow>
           int (permits (limiter (foldl (rstep env) (rstart env m) sched))) \<le> L)
     \<and> (\<forall>L. 1 \<le> L \<and> conc_enh env = Finite (of_int L) \<longrightarrow>
           int (permits (enhanceLimiter (foldl (pstep env) (pstart env m) sched))) \<le> L)
     \<and> (\<forall>L. 1 \<le> L \<and> conc_ocr env = Finite (of_int L) \<longrightarrow>
           int (permits (ocrLimiter (foldl (pstep env) (pstart env m) sched))) \<le> L)"
proof -
  have inv: "limiter_inv g" using assms limiter_inv_run[OF limiter_inv_init, of mx n evs] by simp
  have lim: "limit g = mx" using assms by (simp add: limit_run createConcurrencyLimiter_def)
  have a: "active g = int (permits g)" using inv by (simp add: limiter_inv_def)
  have b: "\<forall>t r. t < length (phases g) \<and> phases g ! t = Holding \<longrightarrow>
            active (limiter_step g (Settle t r)) = active g - 1 \<and>
            phases (limiter_step g (Settle t r)) ! t = Done r \<and>
            int (permits (limiter_step g (Settle t r))) = int (permits g) - 1"
    using limiter_inv_settle[OF inv] by blast
  have c: "\<forall>L. 1 \<le> L \<and> mx = Finite (of_int L) \<longrightarrow> int (permits g) \<le> L"
    using limiter_inv_bound[OF inv] lim by simp
  have d: "\<forall>q. 1 \<le> q \<and> mx = Finite q \<longrightarrow> (of_int (int (permits g)) :: rat) < q + 1"
    using limiter_inv_bound_rat[OF inv] lim by simp
  have e: "\<forall>L. 1 \<le> L \<and> conc_pdf env = Finite (of_int L) \<longrightarrow>
           int (permits (limiter (foldl (rstep env) (rstart env m) sched))) \<le> L"
  proof (intro allI impI)
    fix L assume h: "1 \<le> L \<and> conc_pdf env = Finite (of_int L)"
    have "limiter_inv (limiter (foldl (rstep env) (rstart env m) sched))
        \<and> limit (limiter (foldl (rstep env) (rstart env m) sched)) = conc_pdf env"
      by (rule raster_limiter_run[OF raster_limiter_start])
    then show "int (permits (limiter (foldl (rstep env) (rstart env m) sched))) \<le> L"
      using limiter_inv_bound[of "limiter (foldl (rstep env) (rstart env m) sched)" L] h by simp
  qed
  have f: "\<forall>L. 1 \<le> L \<and> conc_enh env = Finite (of_int L) \<longrightarrow>
           int (permits (enhanceLimiter (foldl (pstep env) (pstart env m) sched))) \<le> L"
  proof (intro allI impI)
    fix L assume h: "1 \<le> L \<and> conc_enh env = Finite (of_int L)"
    have "limiter_inv (enhanceLimiter (foldl (pstep env) (pstart env m) sched))
        \<and> limit (enhanceLimiter (foldl (pstep env) (pstart env m) sched)) = conc_enh env"
      by (rule enh_limiter_run[OF enh_limiter_start])
    then show "int (permits (enhanceLimiter (foldl (pstep env) (pstart env m) sched))) \<le> L"
      using limiter_inv_bound[of "enhanceLimiter (foldl (pstep env) (pstart env m) sched)" L] h by simp
  qed
  have g: "\<forall>L. 1 \<le> L \<and> conc_ocr env = Finite (of_int L) \<longrightarrow>
           int (permits (ocrLimiter (foldl (pstep env) (pstart env m) sched))) \<le> L"
  proof (intro allI impI)
    fix L assume h: "1 \<le> L \<and> conc_ocr env = Finite (of_int L)"
    have "limiter_inv (ocrLimiter (foldl (pstep env) (pstart env m) sched))
        \<and> limit (ocrLimiter (foldl (pstep env) (pstart env m) sched)) = conc_ocr env"
      by (rule ocr_limiter_run[OF ocr_limiter_start])
    then show "int (permits (ocrLimiter (foldl (pstep env) (pstart env m) sched))) \<le> L"
      using limiter_inv_bound[of "ocrLimiter (foldl (pstep env) (pstart env m) sched)" L] h by simp
  qed
  show ?thesis using a b c d e f g by blast
qed

text \<open>
  Four tasks on a limiter of two permits: the second task throws, the third is woken and
  takes the permit that came back, the fourth still waits. Three tasks on a limiter with
  the limit 2.5 hold three permits. In the three-page document the three recognition
  tasks hold the three permits of their limiter.
\<close>

theorem limiter_bound_witness:
  "phases (foldl limiter_step (createConcurrencyLimiter (Finite 2) 4)
              [Call 0, Call 1, Call 2, Call 3, Settle 1 (Some TypeError), Resume 2])
       = [Holding, Done (Some TypeError), Holding, Queued]
   \<and> active (foldl limiter_step (createConcurrencyLimiter (Finite 2) 4)
              [Call 0, Call 1, Call 2, Call 3, Settle 1 (Some TypeError), Resume 2]) = 2
   \<and> permits (foldl limiter_step (createConcurrencyLimiter (Finite 2) 4)
              [Call 0, Call 1, Call 2, Call 3, Settle 1 (Some TypeError), Resume 2]) = 2
   \<and> (1::int) \<le> 2 \<and> Finite 2 = Finite (of_int 2)
   \<and> int (permits (foldl limiter_step (createConcurrencyLimiter (Finite 2) 4)
              [Call 0, Call 1, Call 2, Call 3, Settle 1 (Some TypeError), Resume 2])) \<le> 2
   \<and> active (limiter_step (foldl limiter_step (createConcurrencyLimiter (Finite 2) 4)
              [Call 0, Call 1, Call 2, Call 3, Settle 1 (Some TypeError), Resume 2])
            (Settle 2 (Some (External 7)))) = 1
   \<and> phases (limiter_step (foldl limiter_step (createConcurrencyLimiter (Finite 2) 4)
              [Call 0, Call 1, Call 2, Call 3, Settle 1 (Some TypeError), Resume 2])
            (Settle 2 (Some (External 7)))) ! 2 = Done (Some (External 7))
   \<and> (1::rat) \<le> 5 / 2
   \<and> permits (foldl limiter_step (createConcurrencyLimiter (Finite (5 / 2)) 4)
              [Call 0, Call 1, Call 2, Call 3]) = 3
   \<and> (of_int (int (permits (foldl limiter_step (createConcurrencyLimiter (Finite (5 / 2)) 4)
              [Call 0, Call 1, Call 2, Call 3]))) :: rat) < 5 / 2 + 1
   \<and> conc_ocr env3 = Finite (of_int 3) \<and> permits (ocrLimiter mid3) = 3
   \<and> int (permits (ocrLimiter mid3)) \<le> 3"
proof -
  let ?evs = "[Call 0, Call 1, Call 2, Call 3, Settle 1 (Some TypeError), Resume 2]"
  let ?g = "foldl limiter_step (createConcurrencyLimiter (Finite 2) 4) ?evs"
  let ?h = "foldl limiter_step (createConcurrencyLimiter (Finite (5 / 2)) 4) [Call 0, Call 1, Call 2, Call 3]"
  note th = limiter_bound[of ?g "Finite 2" 4 ?evs env3 3 "[EnhSettle 0, OcrStart 0, OcrStart 1]", OF refl]
  note th2 = limiter_bound[of ?h "Finite (5 / 2)" 4 "[Call 0, Call 1, Call 2, Call 3]", OF refl]
  have g: "?g = \<lparr>limit = Finite 2, active = 2, queue = [3],
                   phases = [Holding, Done (Some TypeError), Holding, Queued]\<rparr>"
    by (simp add: limiter_eval eval_nat_numeral)
  have h: "?h = \<lparr>limit = Finite (5 / 2), active = 3, queue = [3],
                   phases = [Holding, Holding, Holding, Queued]\<rparr>"
    by (simp add: limiter_eval eval_nat_numeral)
  have p: "permits ?g = 2" "permits ?h = 3" "phases ?g = [Holding, Done (Some TypeError), Holding, Queued]"
    "active ?g = 2"
    unfolding g h by (simp_all add: permits_def)
  have two: "(1::int) \<le> 2 \<and> Finite 2 = Finite (of_int 2)" by simp
  have hold: "2 < length (phases ?g) \<and> phases ?g ! 2 = Holding" unfolding g by simp
  from th two have b1: "int (permits ?g) \<le> 2" by blast
  from th hold have "active (limiter_step ?g (Settle 2 (Some (External 7)))) = active ?g - 1
      \<and> phases (limiter_step ?g (Settle 2 (Some (External 7)))) ! 2 = Done (Some (External 7))"
    by blast
  with p(4) have b2: "active (limiter_step ?g (Settle 2 (Some (External 7)))) = 1
      \<and> phases (limiter_step ?g (Settle 2 (Some (External 7)))) ! 2 = Done (Some (External 7))"
    by simp
  have half: "(1::rat) \<le> 5 / 2" by simp
  from th2 half have b3: "(of_int (int (permits ?h)) :: rat) < 5 / 2 + 1" by blast
  have o: "conc_ocr env3 = Finite (of_int 3)" by (simp add: env3_fields)
  have "(1::int) \<le> 3" by simp
  with th o have b4: "int (permits (ocrLimiter mid3)) \<le> 3" unfolding mid3_def by blast
  have b5: "permits (ocrLimiter mid3) = 3" by (simp add: mid3_eval permits_def)
  show ?thesis using p two b1 b2 half b3 o b4 b5 by blast
qed

text \<open>
  Claim C4. Two runs on the same document and the same collaborators, under any two
  schedules, that both return, return the same result; its text is the trimmed
  concatenation of the stretches of the pages in ascending page order, each stretch
  holding the normalised text of its page. There are runs that return the same result
  after making their recognition calls in different orders.
\<close>

theorem page_order:
  assumes "runOcrProcessingPipeline env markers evs1 = (w1, Returned r1)"
    and "runOcrProcessingPipeline env markers evs2 = (w2, Returned r2)"
  shows "r1 = r2 \<and>
         r_text r1 = trim (concat (map (\<lambda>i. segment markers i (page_text env i)) [0..<r_pages r1]))
         \<and> (\<exists>env' evs evs' w w' r. runOcrProcessingPipeline env' False evs = (w, Returned r)
                \<and> runOcrProcessingPipeline env' False evs' = (w', Returned r) \<and> calls w \<noteq> calls w')"
proof -
  from run_text[OF assms(1)] obtain f1 where
    r1: "r1 = \<lparr>r_success = True, r_text = trim (pages_in_order env markers (r_pages r1)),
              r_pages = r_pages r1, r_length = length (trim (pages_in_order env markers (r_pages r1)))\<rparr>"
    and f1: "list_res env = Inr f1" "r_pages r1 = length f1" by blast
  from run_text[OF assms(2)] obtain f2 where
    r2: "r2 = \<lparr>r_success = True, r_text = trim (pages_in_order env markers (r_pages r2)),
              r_pages = r_pages r2, r_length = length (trim (pages_in_order env markers (r_pages r2)))\<rparr>"
    and f2: "list_res env = Inr f2" "r_pages r2 = length f2" by blast
  from f1 f2 have "r_pages r1 = r_pages r2" by simp
  with r1 r2 have "r1 = r2" by metis
  moreover have "r_text r1 = trim (pages_in_order env markers (r_pages r1))"
    using r1 by (metis result.select_convs(2))
  moreover have "\<exists>env' evs evs' w w' r. runOcrProcessingPipeline env' False evs = (w, Returned r)
                \<and> runOcrProcessingPipeline env' False evs' = (w', Returned r) \<and> calls w \<noteq> calls w'"
    using run3a run3b by (intro exI conjI) (assumption, assumption, simp)
  ultimately show ?thesis by (simp add: pages_in_order_def)
qed

text \<open>
  The two schedules of the three-page document recognise the pages in opposite orders
  and return the same text.
\<close>

theorem page_order_witness:
  "runOcrProcessingPipeline env3 False (draw3 @ pipe_a) =
     (\<lparr>calls = [Mkdir 0, Mkdir 1, WriteFile, Mkdir 2, MutoolShow, MutoolDraw 1, MutoolDraw 2,
                MutoolDraw 3, ReadDir, Enhance 0, Enhance 1, Enhance 2,
                Recognize 0, Recognize 1, Recognize 2, Rm],
       ws_exists = False\<rparr>, Returned result3)
   \<and> runOcrProcessingPipeline env3 False (draw3 @ pipe_b) =
     (\<lparr>calls = [Mkdir 0, Mkdir 1, WriteFile, Mkdir 2, MutoolShow, MutoolDraw 1, MutoolDraw 2,
                MutoolDraw 3, ReadDir, Enhance 0, Enhance 1, Enhance 2,
                Recognize 2, Recognize 1, Recognize 0, Rm],
       ws_exists = False\<rparr>, Returned result3)
   \<and> r_text result3 = trim (concat (map (\<lambda>i. segment False i (page_text env3 i)) [0..<r_pages result3]))
   \<and> r_text result3 = js ''A'' @ [10, 10, 10, 10] @ js ''C''"
  using page_order[OF run3a run3b] run3a run3b by (simp add: result3_def js_def)

text \<open>
  Claim C6. With page markers on, the text of a run that returns is, trimmed, the
  concatenation for \<open>k\<close> from 1 to the number of pages of the literal
  \<open>"\n\n===== PAGE k =====\n\n"\<close> followed by the normalised text of page \<open>k\<close>, with nothing
  between the pages; for one page whose recognised text is \<open>"Hello"\<close> it is
  \<open>"===== PAGE 1 =====\n\nHello"\<close>, and there is a run of that kind that returns.
\<close>

theorem marker_format:
  assumes "runOcrProcessingPipeline env True evs = (w, Returned r)"
  shows "r_text r = trim (concat (map (\<lambda>k. [10, 10] @ js ''===== PAGE '' @ decimal k
                                          @ js '' ====='' @ [10, 10] @ page_text env (k - 1))
                                [1..<r_pages r + 1]))
     \<and> (r_pages r = 1 \<and> ocr_res env 0 = Inr (Document (Some (js ''Hello'')))
          \<longrightarrow> r_text r = js ''===== PAGE 1 ====='' @ [10, 10] @ js ''Hello'')
     \<and> (\<exists>env' evs' w' r'. runOcrProcessingPipeline env' True evs' = (w', Returned r')
            \<and> r_pages r' = 1 \<and> ocr_res env' 0 = Inr (Document (Some (js ''Hello''))))"
proof -
  from run_text[OF assms] have
    r: "r_text r = trim (pages_in_order env True (r_pages r))"
    by (metis result.select_convs(2))
  have general: "r_text r = trim (concat (map (\<lambda>k. [10, 10] @ js ''===== PAGE '' @ decimal k
                                          @ js '' ====='' @ [10, 10] @ page_text env (k - 1))
                                [1..<r_pages r + 1]))"
    using r by (simp only: segments_from_one)
  have hello: "r_text r = js ''===== PAGE 1 ====='' @ [10, 10] @ js ''Hello''"
    if one: "r_pages r = 1" and rec: "ocr_res env 0 = Inr (Document (Some (js ''Hello'')))"
  proof -
    from run_bodies[OF assms, of 0] one obtain t where t: "ocr_body env 0 = Inr t" by auto
    then have perf: "performDocumentAiOcrOnImage env 0 = ocr_res env 0"
      by (auto simp: ocr_body_def performDocumentAiOcrOnImage_def split: option.splits if_splits)
    have "ocr_body env 0 = Inr (js ''Hello'')"
      using perf rec normalize_Hello by (simp add: ocr_body_def js_def)
    then have "page_text env 0 = js ''Hello''" by (simp add: page_text_def)
    then have "pages_in_order env True 1 = [10, 10] @ js ''===== PAGE 1 ====='' @ [10, 10] @ js ''Hello''"
      by (simp add: pages_in_order_def segment_def decimal.simps js_def)
    then show ?thesis using r one trim1 by simp
  qed
  have ex: "\<exists>env' evs' w' r'. runOcrProcessingPipeline env' True evs' = (w', Returned r')
            \<and> r_pages r' = 1 \<and> ocr_res env' 0 = Inr (Document (Some (js ''Hello'')))"
    using run1 by (intro exI conjI) (assumption, simp_all add: result1_def env1_fields)
  show ?thesis using general hello ex by blast
qed

text \<open>
  The one-page document returns that text under the schedule \<open>draw1 @ pipe1\<close>.
\<close>

theorem marker_format_witness:
  "runOcrProcessingPipeline env1 True (draw1 @ pipe1) =
     (\<lparr>calls = [Mkdir 0, Mkdir 1, WriteFile, Mkdir 2, MutoolShow, MutoolDraw 1, ReadDir,
                Enhance 0, Recognize 0, Rm],
       ws_exists = False\<rparr>, Returned result1)
   \<and> r_pages result1 = 1 \<and> ocr_res env1 0 = Inr (Document (Some (js ''Hello'')))
   \<and> r_text result1 = js ''===== PAGE 1 ====='' @ [10, 10] @ js ''Hello''
   \<and> r_text result1 = [61, 61, 61, 61, 61, 32, 80, 65, 71, 69, 32, 49, 32, 61, 61, 61, 61, 61,
                         10, 10, 72, 101, 108, 108, 111]"
proof -
  have a: "r_pages result1 = 1" by (simp add: result1_def)
  have b: "ocr_res env1 0 = Inr (Document (Some (js ''Hello'')))" by (simp add: env1_fields)
  from marker_format[OF run1] a b
  have "r_text result1 = js ''===== PAGE 1 ====='' @ [10, 10] @ js ''Hello''" by blast
  moreover have "js ''===== PAGE 1 ====='' @ [10, 10] @ js ''Hello'' =
     [61, 61, 61, 61, 61, 32, 80, 65, 71, 69, 32, 49, 32, 61, 61, 61, 61, 61,
      10, 10, 72, 101, 108, 108, 111]" by (simp add: js_def)
  ultimately show ?thesis using run1 a b by simp
qed

text \<open>
  Claim C7. With page markers off, a run over three pages whose normalised texts are
  \<open>"A"\<close>, \<open>""\<close> and \<open>"C"\<close> assembles \<open>"A\n\n\n\nC"\<close> before the final trim, and returns it.
  A page whose recognised text is empty or missing raises no error: the function of its
  recognition task returns the empty string. There is a run of that kind that returns,
  with a second page that has no text.
\<close>

theorem no_marker_scenario:
  assumes "runOcrProcessingPipeline env False evs = (w, Returned r)" and "r_pages r = 3"
    and "page_text env 0 = js ''A''" and "page_text env 1 = []" and "page_text env 2 = js ''C''"
  shows "(\<exists>w0. tryBody env False evs = (w0, Returned (js ''A'' @ [10, 10, 10, 10] @ js ''C'', 3)))
     \<and> r_text r = js ''A'' @ [10, 10, 10, 10] @ js ''C''
     \<and> (\<forall>i t. read_res env i = None \<and> client env \<and> ocr_res env i = Inr (Document t)
            \<and> (t = None \<or> t = Some []) \<longrightarrow> ocr_body env i = Inr [])
     \<and> (\<exists>env' evs' w' r'. runOcrProcessingPipeline env' False evs' = (w', Returned r')
            \<and> r_pages r' = 3 \<and> ocr_res env' 1 = Inr (Document None)
            \<and> page_text env' 0 = js ''A'' \<and> page_text env' 1 = [] \<and> page_text env' 2 = js ''C'')"
proof -
  have p: "pages_in_order env False 3 = js ''A'' @ [10, 10, 10, 10] @ js ''C''"
    using assms(3-5) by (simp add: pages_in_order_def segment_def eval_nat_numeral)
  from run_Returned[OF assms(1)] assms(2) obtain w0 tx where
    tb: "tryBody env False evs = (w0, Returned (tx, 3))" and rt: "r_text r = trim tx"
    by (metis result.select_convs(2))
  from tryBody_Returned[OF tb] have "tx = pages_in_order env False 3" by blast
  with p have tx: "tx = js ''A'' @ [10, 10, 10, 10] @ js ''C''" by simp
  have "trim (js ''A'' @ [10, 10, 10, 10] @ js ''C'') = js ''A'' @ [10, 10, 10, 10] @ js ''C''"
    using trim3 by (simp add: js_def)
  with rt tx have t: "r_text r = js ''A'' @ [10, 10, 10, 10] @ js ''C''" by simp
  have e: "\<forall>i t. read_res env i = None \<and> client env \<and> ocr_res env i = Inr (Document t)
            \<and> (t = None \<or> t = Some []) \<longrightarrow> ocr_body env i = Inr []"
    by (auto simp: ocr_body_def performDocumentAiOcrOnImage_def eval_norm)
  have ex: "\<exists>env' evs' w' r'. runOcrProcessingPipeline env' False evs' = (w', Returned r')
            \<and> r_pages r' = 3 \<and> ocr_res env' 1 = Inr (Document None)
            \<and> page_text env' 0 = js ''A'' \<and> page_text env' 1 = [] \<and> page_text env' 2 = js ''C''"
    using run3a env3_body env3_ocr
    by (intro exI conjI) (assumption, simp_all add: result3_def page_text_def)
  show ?thesis using tb tx t e ex by blast
qed

text \<open>
  The three-page document, whose second page has no text, returns \<open>"A\n\n\n\nC"\<close>.
\<close>

theorem no_marker_scenario_witness:
  "runOcrProcessingPipeline env3 False (draw3 @ pipe_a) =
     (\<lparr>calls = [Mkdir 0, Mkdir 1, WriteFile, Mkdir 2, MutoolShow, MutoolDraw 1, MutoolDraw 2,
                MutoolDraw 3, ReadDir, Enhance 0, Enhance 1, Enhance 2,
                Recognize 0, Recognize 1, Recognize 2, Rm],
       ws_exists = False\<rparr>, Returned result3)
   \<and> r_pages result3 = 3
   \<and> page_text env3 0 = js ''A'' \<and> page_text env3 1 = [] \<and> page_text env3 2 = js ''C''
   \<and> (\<exists>w0. tryBody env3 False (draw3 @ pipe_a) = (w0, Returned (js ''A'' @ [10, 10, 10, 10] @ js ''C'', 3)))
   \<and> r_text result3 = js ''A'' @ [10, 10, 10, 10] @ js ''C''
   \<and> read_res env3 1 = None \<and> client env3 \<and> ocr_res env3 1 = Inr (Document None)
   \<and> ocr_body env3 1 = Inr []"
proof -
  have a: "r_pages result3 = 3" by (simp add: result3_def)
  have b: "page_text env3 0 = js ''A''" "page_text env3 1 = []" "page_text env3 2 = js ''C''"
    using env3_body by (simp_all add: page_text_def)
  have c: "read_res env3 1 = None \<and> client env3 \<and> ocr_res env3 1 = Inr (Document None)"
    using env3_ocr by (simp add: env3_fields)
  note th = no_marker_scenario[OF run3a a b]
  from th c have "ocr_body env3 1 = Inr []" by blast
  then show ?thesis using th run3a a b c by blast
qed

text \<open>
  Claim C2. In every state that the enhancement and recognition phase can reach, under
  any schedule, a page whose recognition call has been made, or whose recognition task
  is past its wait, has its completion promise resolved, and its enhancement task has
  completed without error; the continuation of the wait of page \<open>i\<close> does nothing while
  the promise of page \<open>i\<close> is unresolved. The recognition call of one page can be made
  while the enhancement of another page is still running.
\<close>

theorem recognizer_waits_for_enhancer:
  "(\<forall>i. Recognize i \<in> set (pcalls (foldl (pstep env) (pstart env n) evs))
          \<or> (i < n \<and> begun (foldl (pstep env) (pstart env n) evs) ! i)
        \<longrightarrow> i < n \<and> enhancedPromises (foldl (pstep env) (pstart env n) evs) ! i
            \<and> phases (enhanceLimiter (foldl (pstep env) (pstart env n) evs)) ! i = Done None)
   \<and> (\<not> (i < length (enhancedPromises s) \<and> enhancedPromises s ! i) \<longrightarrow> pstep env s (OcrStart i) = s)
   \<and> (\<exists>env' evs'. Recognize 0 \<in> set (pcalls (foldl (pstep env') (pstart env' 3) evs'))
          \<and> \<not> enhancedPromises (foldl (pstep env') (pstart env' 3) evs') ! 1
          \<and> phases (enhanceLimiter (foldl (pstep env') (pstart env' 3) evs')) ! 1 = Holding)"
proof -
  let ?s = "foldl (pstep env) (pstart env n) evs"
  have inv: "pinv env n ?s" using pinv_run[OF pinv_start] .
  have a: "\<forall>i. Recognize i \<in> set (pcalls ?s) \<or> (i < n \<and> begun ?s ! i)
        \<longrightarrow> i < n \<and> enhancedPromises ?s ! i \<and> phases (enhanceLimiter ?s) ! i = Done None"
  proof (intro allI impI)
    fix i assume "Recognize i \<in> set (pcalls ?s) \<or> (i < n \<and> begun ?s ! i)"
    with inv have i: "i < n" and b: "begun ?s ! i" by (auto simp: pinv_def)
    with inv have "enhancedPromises ?s ! i" by (simp add: pinv_def)
    moreover from this inv i have "phases (enhanceLimiter ?s) ! i = Done None" by (simp add: pinv_def)
    ultimately show "i < n \<and> enhancedPromises ?s ! i \<and> phases (enhanceLimiter ?s) ! i = Done None"
      using i by simp
  qed
  have b: "\<not> (i < length (enhancedPromises s) \<and> enhancedPromises s ! i) \<longrightarrow> pstep env s (OcrStart i) = s"
    by auto
  let ?t = "foldl (pstep env3) (pstart env3 3) [EnhSettle 0, OcrStart 0, OcrStart 1]"
  have "Recognize 0 \<in> set (pcalls ?t) \<and> \<not> enhancedPromises ?t ! 1 \<and> phases (enhanceLimiter ?t) ! 1 = Holding"
    by (simp add: env3_fields pstart_def enh_enter_def limiter_eval eval_nat_numeral)
  then have c: "\<exists>env' evs'. Recognize 0 \<in> set (pcalls (foldl (pstep env') (pstart env' 3) evs'))
          \<and> \<not> enhancedPromises (foldl (pstep env') (pstart env' 3) evs') ! 1
          \<and> phases (enhanceLimiter (foldl (pstep env') (pstart env' 3) evs')) ! 1 = Holding"
    by blast
  show ?thesis using a b c by blast
qed

text \<open>
  In the three-page document, once page 1 is enhanced its recognition call is made while
  page 2 is still being enhanced; the recognition task of page 2 cannot go on.
\<close>

theorem recognizer_waits_for_enhancer_witness:
  "Recognize 0 \<in> set (pcalls mid3) \<and> enhancedPromises mid3 ! 0 \<and> phases (enhanceLimiter mid3) ! 0 = Done None
   \<and> \<not> enhancedPromises mid3 ! 1 \<and> phases (enhanceLimiter mid3) ! 1 = Holding
   \<and> pstep env3 mid3 (OcrStart 1) = mid3 \<and> Recognize 1 \<notin> set (pcalls mid3)"
proof -
  note th = recognizer_waits_for_enhancer[of env3 3 "[EnhSettle 0, OcrStart 0, OcrStart 1]" 1 mid3]
  have r: "Recognize 0 \<in> set (pcalls mid3)" by (simp add: mid3_eval)
  have n: "\<not> (1 < length (enhancedPromises mid3) \<and> enhancedPromises mid3 ! 1)" by (simp add: mid3_eval)
  from th r have "enhancedPromises mid3 ! 0 \<and> phases (enhanceLimiter mid3) ! 0 = Done None"
    unfolding mid3_def by blast
  moreover from th n have "pstep env3 mid3 (OcrStart 1) = mid3" by blast
  moreover have "\<not> enhancedPromises mid3 ! 1 \<and> phases (enhanceLimiter mid3) ! 1 = Holding
      \<and> Recognize 1 \<notin> set (pcalls mid3)" by (simp add: mid3_eval)
  ultimately show ?thesis using r by blast
qed

text \<open>
  Claim C3, as stated, fails when the removal of the session directory itself rejects:
  here writing the input file raises the error 5 and \<open>rm\<close> raises the error 9; the caller
  sees the error 9, and the directory still exists.
\<close>

theorem cleanup_counterexample:
  "tryBody (env3\<lparr>write_res := Some (External 5), rm_res := (\<lambda>_. Some (External 9))\<rparr>) False []
     = (\<lparr>calls = [Mkdir 0, Mkdir 1, WriteFile], ws_exists = True\<rparr>, Raised (External 5))
   \<and> runOcrProcessingPipeline
        (env3\<lparr>write_res := Some (External 5), rm_res := (\<lambda>_. Some (External 9))\<rparr>) False []
     = (\<lparr>calls = [Mkdir 0, Mkdir 1, WriteFile, Rm], ws_exists = True\<rparr>, Raised (External 9))"
  by (simp add: runOcrProcessingPipeline_def cleanup_and_rethrow_def tryBody_def stragglers_def
      tryBlock_def do_mkdir_def env3_fields)

text \<open>
  Claim C3, amended. When the removal of the session directory succeeds, every run that
  comes back to its caller, by returning or by raising, has removed the directory, and no
  later call of the run makes it again. The error it raises is the error that the \<open>try\<close>
  block raised, and the removal is the first call after those made until control left
  the \<open>try\<close> block; the tasks that the rejection left running go on behind it, with
  conversion, enhancement and recognition calls only. The result it returns is the
  trimmed text and the page count that the \<open>try\<close> block assembled, and then the removal is
  the last call of the run.
\<close>

theorem cleanup_when_removal_succeeds:
  assumes "rm_res env 0 = None" and "runOcrProcessingPipeline env markers evs = (w, out)"
    and "out \<noteq> Pending"
  shows "\<not> ws_exists w \<and> Rm \<in> set (calls w)
     \<and> (\<forall>e. out = Raised e \<longrightarrow>
          (\<exists>w0. tryBody env markers evs = (w0, Raised e)
             \<and> calls w = calls w0 @ [Rm] @ stragglers env markers evs))
     \<and> (\<forall>c \<in> set (stragglers env markers evs).
          (\<exists>p. c = MutoolDraw p) \<or> (\<exists>i. c = Enhance i) \<or> (\<exists>i. c = Recognize i))
     \<and> (\<forall>r. out = Returned r \<longrightarrow>
          (\<exists>w0 tx. tryBody env markers evs = (w0, Returned (tx, r_pages r)) \<and> r_text r = trim tx
              \<and> r_success r \<and> calls w = calls w0 @ [Rm]))"
proof -
  have k: "\<forall>c \<in> set (stragglers env markers evs).
          (\<exists>p. c = MutoolDraw p) \<or> (\<exists>i. c = Enhance i) \<or> (\<exists>i. c = Recognize i)"
    using stragglers_kind by blast
  show ?thesis
  proof (cases out)
    case Pending
    with assms(3) show ?thesis by simp
  next
    case (Raised e)
    from run_Raised[OF assms(2)[unfolded Raised] assms(1)] obtain w0 where
      "tryBody env markers evs = (w0, Raised e)"
      "w = \<lparr>calls = calls w0 @ Rm # stragglers env markers evs, ws_exists = False\<rparr>" by blast
    then show ?thesis using Raised k by simp
  next
    case (Returned r)
    from run_Returned[OF assms(2)[unfolded Returned]] obtain w0 tx where
      tb: "tryBody env markers evs = (w0, Returned (tx, r_pages r))"
      and r: "r = \<lparr>r_success = True, r_text = trim tx, r_pages = r_pages r, r_length = length (trim tx)\<rparr>"
      by blast
    from run_Returned_world[OF assms(2)[unfolded Returned]] tb
    have w: "w = \<lparr>calls = calls w0 @ [Rm], ws_exists = False\<rparr>" by simp
    have "r_text r = trim tx \<and> r_success r" using r by (metis result.select_convs(1,2))
    then show ?thesis using Returned tb w k by simp
  qed
qed

text \<open>
  Four runs with a removal that succeeds: one whose write fails; one that returns; one in
  which the conversion of page 1 fails, the conversion of page 2 starts before the \<open>catch\<close>
  block runs and the conversion of page 3 after the removal; one in which the enhancement
  of page 1 fails and the recognition request of page 2 is made after the removal.
\<close>

theorem cleanup_when_removal_succeeds_witness:
  "rm_res (env3\<lparr>write_res := Some (External 5)\<rparr>) 0 = None
   \<and> runOcrProcessingPipeline (env3\<lparr>write_res := Some (External 5)\<rparr>) False []
       = (\<lparr>calls = [Mkdir 0, Mkdir 1, WriteFile, Rm], ws_exists = False\<rparr>, Raised (External 5))
   \<and> (\<exists>w0. tryBody (env3\<lparr>write_res := Some (External 5)\<rparr>) False [] = (w0, Raised (External 5)))
   \<and> rm_res env3 0 = None
   \<and> runOcrProcessingPipeline env3 False (draw3 @ pipe_a) =
     (\<lparr>calls = [Mkdir 0, Mkdir 1, WriteFile, Mkdir 2, MutoolShow, MutoolDraw 1, MutoolDraw 2,
                MutoolDraw 3, ReadDir, Enhance 0, Enhance 1, Enhance 2,
                Recognize 0, Recognize 1, Recognize 2, Rm],
       ws_exists = False\<rparr>, Returned result3)
   \<and> (\<exists>w0 tx. tryBody env3 False (draw3 @ pipe_a) = (w0, Returned (tx, r_pages result3))
         \<and> r_text result3 = trim tx)
   \<and> rm_res env3d 0 = None
   \<and> runOcrProcessingPipeline env3d False draw3d =
     (\<lparr>calls = [Mkdir 0, Mkdir 1, WriteFile, Mkdir 2, MutoolShow, MutoolDraw 1, MutoolDraw 2, Rm,
                MutoolDraw 3],
       ws_exists = False\<rparr>, Raised (External 3))
   \<and> stragglers env3d False draw3d = [MutoolDraw 3]
   \<and> rm_res env3e 0 = None
   \<and> runOcrProcessingPipeline env3e False (draw3 @ pipe3e) =
     (\<lparr>calls = [Mkdir 0, Mkdir 1, WriteFile, Mkdir 2, MutoolShow, MutoolDraw 1, MutoolDraw 2,
                MutoolDraw 3, ReadDir, Enhance 0, Enhance 1, Enhance 2, Rm, Recognize 1],
       ws_exists = False\<rparr>, Raised (External 4))
   \<and> stragglers env3e False (draw3 @ pipe3e) = [Recognize 1]
   \<and> (\<exists>w0. tryBody env3e False (draw3 @ pipe3e) = (w0, Raised (External 4))
         \<and> [Mkdir 0, Mkdir 1, WriteFile, Mkdir 2, MutoolShow, MutoolDraw 1, MutoolDraw 2,
                MutoolDraw 3, ReadDir, Enhance 0, Enhance 1, Enhance 2, Rm, Recognize 1]
             = calls w0 @ [Rm] @ [Recognize 1])"
proof -
  let ?e = "env3\<lparr>write_res := Some (External 5)\<rparr>"
  have a: "rm_res ?e 0 = None" by (simp add: env3_fields)
  have b: "runOcrProcessingPipeline ?e False []
       = (\<lparr>calls = [Mkdir 0, Mkdir 1, WriteFile, Rm], ws_exists = False\<rparr>, Raised (External 5))"
    by (simp add: runOcrProcessingPipeline_def cleanup_and_rethrow_def tryBody_def stragglers_def
      tryBlock_def do_mkdir_def env3_fields)
  have c: "rm_res env3 0 = None" by (simp add: env3_fields)
  from cleanup_when_removal_succeeds[OF a b]
  have d: "\<exists>w0. tryBody ?e False [] = (w0, Raised (External 5))" by blast
  from cleanup_when_removal_succeeds[OF c run3a]
  have e: "\<exists>w0 tx. tryBody env3 False (draw3 @ pipe_a) = (w0, Returned (tx, r_pages result3))
         \<and> r_text result3 = trim tx" by blast
  have f: "rm_res env3d 0 = None" "rm_res env3e 0 = None"
    by (simp_all add: env3d_fields env3e_fields)
  have g: "stragglers env3d False draw3d = [MutoolDraw 3]"
    "stragglers env3e False (draw3 @ pipe3e) = [Recognize 1]"
    by (simp_all add: stragglers_def block3d block3e)
  from cleanup_when_removal_succeeds[OF f(2) run3e]
  have "\<exists>w0. tryBody env3e False (draw3 @ pipe3e) = (w0, Raised (External 4))
         \<and> [Mkdir 0, Mkdir 1, WriteFile, Mkdir 2, MutoolShow, MutoolDraw 1, MutoolDraw 2,
                MutoolDraw 3, ReadDir, Enhance 0, Enhance 1, Enhance 2, Rm, Recognize 1]
             = calls w0 @ [Rm] @ stragglers env3e False (draw3 @ pipe3e)"
    by simp
  then have h: "\<exists>w0. tryBody env3e False (draw3 @ pipe3e) = (w0, Raised (External 4))
         \<and> [Mkdir 0, Mkdir 1, WriteFile, Mkdir 2, MutoolShow, MutoolDraw 1, MutoolDraw 2,
                MutoolDraw 3, ReadDir, Enhance 0, Enhance 1, Enhance 2, Rm, Recognize 1]
             = calls w0 @ [Rm] @ [Recognize 1]"
    unfolding g(2) .
  show ?thesis using a b c d e f g h run3a run3d run3e by blast
qed

text \<open>
  Claim C8, as stated, fails in two ways. When the removal of the session directory
  rejects: the page count is 0 and \<open>rm\<close> raises the error 9; the caller sees the error 9,
  not the invalid page count, and the directory still exists. And when the output of the
  page counter is not numeric but starts with a number: \<open>parseInt\<close> reads the number and
  drops what follows, so \<open>"7 pages"\<close> counts as 7, \<open>"1.9"\<close> as 1 and \<open>"0x10"\<close> as 16; with
  the output \<open>"1 page"\<close> the run converts, enhances and recognises the page and returns.
\<close>

theorem invalid_page_count_counterexample:
  "leading_value (trim (js ''0'' @ [10])) < 1
   \<and> runOcrProcessingPipeline
        (env3\<lparr>show_res := Inr (js ''0'' @ [10]), rm_res := (\<lambda>_. Some (External 9))\<rparr>) False []
     = (\<lparr>calls = [Mkdir 0, Mkdir 1, WriteFile, Mkdir 2, MutoolShow, Rm], ws_exists = True\<rparr>,
        Raised (External 9))
   \<and> show_res env1p = Inr (js ''1 page'' @ [10]) \<and> \<not> numeric (trim (js ''1 page'' @ [10]))
   \<and> runOcrProcessingPipeline env1p True (draw1 @ pipe1) =
     (\<lparr>calls = [Mkdir 0, Mkdir 1, WriteFile, Mkdir 2, MutoolShow, MutoolDraw 1, ReadDir,
                Enhance 0, Recognize 0, Rm],
       ws_exists = False\<rparr>, Returned result1)
   \<and> \<not> numeric (js ''7 pages'') \<and> getPdfPageCount (env3\<lparr>show_res := Inr (js ''7 pages'')\<rparr>) = Inr 7
   \<and> \<not> numeric (js ''1.9'') \<and> getPdfPageCount (env3\<lparr>show_res := Inr (js ''1.9'')\<rparr>) = Inr 1
   \<and> \<not> numeric (js ''0x10'') \<and> getPdfPageCount (env3\<lparr>show_res := Inr (js ''0x10'')\<rparr>) = Inr 16"
proof -
  have a: "leading_value (trim (js ''0'' @ [10])) < 1"
    by (simp add: leading_value_def negative_def unsigned_def digits_value_def is_digit_def
        trim_def is_ws_def js_def)
  have b: "runOcrProcessingPipeline
        (env3\<lparr>show_res := Inr (js ''0'' @ [10]), rm_res := (\<lambda>_. Some (External 9))\<rparr>) False []
     = (\<lparr>calls = [Mkdir 0, Mkdir 1, WriteFile, Mkdir 2, MutoolShow, Rm], ws_exists = True\<rparr>,
        Raised (External 9))"
    by (simp add: runOcrProcessingPipeline_def cleanup_and_rethrow_def tryBody_def stragglers_def
        tryBlock_def do_mkdir_def convertPdfToPngImages_def getPdfPageCount_def parseInt_def
        digit_val_def js_def trim_def is_ws_def env3_fields)
  have c: "\<not> numeric (trim (js ''1 page'' @ [10]))" "\<not> numeric (js ''7 pages'')"
    "\<not> numeric (js ''1.9'')" "\<not> numeric (js ''0x10'')"
    by (simp_all add: numeric_def unsigned_def is_digit_def trim_def is_ws_def js_def)
  have d: "getPdfPageCount (env3\<lparr>show_res := Inr (js ''7 pages'')\<rparr>) = Inr 7"
    "getPdfPageCount (env3\<lparr>show_res := Inr (js ''1.9'')\<rparr>) = Inr 1"
    "getPdfPageCount (env3\<lparr>show_res := Inr (js ''0x10'')\<rparr>) = Inr 16"
    by (simp_all add: getPdfPageCount_def parseInt_def digit_val_def js_def trim_def is_ws_def)
  show ?thesis using a b c d run1p env1p_fields(5) by blast
qed

text \<open>
  Claim C8, amended. Let the session directory be made, the input written and the page
  count read, and take the trimmed output of the page counter. If it does not start, after
  at most one sign, with a digit (so when it is missing, and when it is non-numeric from
  its first character), or if the decimal number it starts with is less than 1 and is not
  the \<open>0\<close> of a hexadecimal prefix \<open>0x\<close>, then under every schedule the \<open>try\<close> block raises the invalid-page-count error, and the run
  makes no conversion, enhancement or recognition call: its calls are the three that set
  the session up, the \<open>mkdir\<close> of the conversion, the page counter and the removal. When
  the removal succeeds, the run raises the invalid-page-count error and leaves no session
  directory. An output that starts with a decimal number of at least 1 (and below 2^53,
  up to where \<open>parseInt\<close> is exact) is taken as that number of pages, whatever follows the
  digits.
\<close>

theorem invalid_page_count:
  assumes "mkdir_res env 0 = None" and "mkdir_res env 1 = None" and "write_res env = None"
    and "mkdir_res env 2 = None" and "show_res env = Inr stdout" and "out = trim stdout"
  shows "(\<not> leading_number out \<or> (\<not> hex_prefixed out \<and> leading_value out < 1) \<longrightarrow>
          tryBody env markers evs =
            (\<lparr>calls = [Mkdir 0, Mkdir 1, WriteFile, Mkdir 2, MutoolShow], ws_exists = True\<rparr>,
             Raised (InvalidPageCount out))
          \<and> stragglers env markers evs = []
          \<and> calls (fst (runOcrProcessingPipeline env markers evs))
                = [Mkdir 0, Mkdir 1, WriteFile, Mkdir 2, MutoolShow, Rm]
          \<and> (rm_res env 0 = None \<longrightarrow>
                runOcrProcessingPipeline env markers evs =
                  (\<lparr>calls = [Mkdir 0, Mkdir 1, WriteFile, Mkdir 2, MutoolShow, Rm], ws_exists = False\<rparr>,
                   Raised (InvalidPageCount out))))
     \<and> (1 \<le> leading_value out \<and> leading_value out < 2 ^ 53 \<longrightarrow>
          getPdfPageCount env = Inr (leading_value out))"
proof -
  have refused: "tryBody env markers evs =
            (\<lparr>calls = [Mkdir 0, Mkdir 1, WriteFile, Mkdir 2, MutoolShow], ws_exists = True\<rparr>,
             Raised (InvalidPageCount out))
          \<and> stragglers env markers evs = []
          \<and> calls (fst (runOcrProcessingPipeline env markers evs))
                = [Mkdir 0, Mkdir 1, WriteFile, Mkdir 2, MutoolShow, Rm]
          \<and> (rm_res env 0 = None \<longrightarrow>
                runOcrProcessingPipeline env markers evs =
                  (\<lparr>calls = [Mkdir 0, Mkdir 1, WriteFile, Mkdir 2, MutoolShow, Rm], ws_exists = False\<rparr>,
                   Raised (InvalidPageCount out)))"
    if h: "\<not> leading_number out \<or> (\<not> hex_prefixed out \<and> leading_value out < 1)"
  proof -
    have "getPdfPageCount env = Inl (InvalidPageCount out)"
      using assms(5,6) h by (rule count_refused)
    from tryBlock_refused[OF assms(1-4) this, of markers evs]
    have tb: "tryBody env markers evs =
            (\<lparr>calls = [Mkdir 0, Mkdir 1, WriteFile, Mkdir 2, MutoolShow], ws_exists = True\<rparr>,
             Raised (InvalidPageCount out))"
      and st: "stragglers env markers evs = []"
      by (simp_all add: tryBody_def stragglers_def)
    then show ?thesis
      by (simp add: runOcrProcessingPipeline_def cleanup_and_rethrow_def split: option.splits)
  qed
  have accepted: "getPdfPageCount env = Inr (leading_value out)" if "1 \<le> leading_value out"
    using count_accepted[OF assms(5,6) that] .
  show ?thesis using refused accepted by blast
qed

text \<open>
  The page counter reports 0; it prints nothing; it prints \<open>"error"\<close>; it prints \<open>"-3"\<close>;
  it prints \<open>"7 pages"\<close>.
\<close>

theorem invalid_page_count_witness:
  "mkdir_res env3 0 = None \<and> mkdir_res env3 1 = None \<and> write_res env3 = None
   \<and> mkdir_res env3 2 = None \<and> rm_res env3 0 = None
   \<and> trim (js ''0'' @ [10]) = js ''0'' \<and> leading_number (js ''0'') \<and> \<not> hex_prefixed (js ''0'')
   \<and> leading_value (js ''0'') = 0
   \<and> runOcrProcessingPipeline (env3\<lparr>show_res := Inr (js ''0'' @ [10])\<rparr>) True (draw3 @ pipe_a) =
     (\<lparr>calls = [Mkdir 0, Mkdir 1, WriteFile, Mkdir 2, MutoolShow, Rm], ws_exists = False\<rparr>,
      Raised (InvalidPageCount (js ''0'')))
   \<and> trim [10] = [] \<and> \<not> leading_number []
   \<and> runOcrProcessingPipeline (env3\<lparr>show_res := Inr [10]\<rparr>) True (draw3 @ pipe_a) =
     (\<lparr>calls = [Mkdir 0, Mkdir 1, WriteFile, Mkdir 2, MutoolShow, Rm], ws_exists = False\<rparr>,
      Raised (InvalidPageCount []))
   \<and> trim (js ''error'') = js ''error'' \<and> \<not> leading_number (js ''error'')
   \<and> runOcrProcessingPipeline (env3\<lparr>show_res := Inr (js ''error'')\<rparr>) True (draw3 @ pipe_a) =
     (\<lparr>calls = [Mkdir 0, Mkdir 1, WriteFile, Mkdir 2, MutoolShow, Rm], ws_exists = False\<rparr>,
      Raised (InvalidPageCount (js ''error'')))
   \<and> trim (js ''-3'') = js ''-3'' \<and> \<not> hex_prefixed (js ''-3'') \<and> leading_value (js ''-3'') = - 3
   \<and> runOcrProcessingPipeline (env3\<lparr>show_res := Inr (js ''-3'')\<rparr>) True (draw3 @ pipe_a) =
     (\<lparr>calls = [Mkdir 0, Mkdir 1, WriteFile, Mkdir 2, MutoolShow, Rm], ws_exists = False\<rparr>,
      Raised (InvalidPageCount (js ''-3'')))
   \<and> trim (js ''7 pages'') = js ''7 pages'' \<and> leading_value (js ''7 pages'') = 7
   \<and> (1::int) \<le> 7 \<and> (7::int) < 2 ^ 53
   \<and> getPdfPageCount (env3\<lparr>show_res := Inr (js ''7 pages'')\<rparr>) = Inr 7"
proof -
  have f: "mkdir_res env3 0 = None" "mkdir_res env3 1 = None" "write_res env3 = None"
    "mkdir_res env3 2 = None" "rm_res env3 0 = None"
    by (simp_all add: env3_fields)
  have t: "trim (js ''0'' @ [10]) = js ''0''" "trim [10] = []" "trim (js ''error'') = js ''error''"
    "trim (js ''7 pages'') = js ''7 pages''" "trim (js ''-3'') = js ''-3''"
    by (simp_all add: trim_def is_ws_def js_def)
  have n: "leading_number (js ''0'')" "\<not> hex_prefixed (js ''0'')" "leading_value (js ''0'') = 0"
    "\<not> leading_number []" "\<not> leading_number (js ''error'')"
    "leading_number (js ''7 pages'')" "\<not> hex_prefixed (js ''7 pages'')"
    "leading_value (js ''7 pages'') = 7"
    "\<not> hex_prefixed (js ''-3'')" "leading_value (js ''-3'') = - 3"
    by (simp_all add: leading_number_def hex_prefixed_def leading_value_def negative_def unsigned_def
        digits_value_def is_digit_def js_def)
  have r0: "runOcrProcessingPipeline (env3\<lparr>show_res := Inr (js ''0'' @ [10])\<rparr>) True (draw3 @ pipe_a) =
     (\<lparr>calls = [Mkdir 0, Mkdir 1, WriteFile, Mkdir 2, MutoolShow, Rm], ws_exists = False\<rparr>,
      Raised (InvalidPageCount (js ''0'')))"
    using invalid_page_count[of "env3\<lparr>show_res := Inr (js ''0'' @ [10])\<rparr>" "js ''0'' @ [10]" "js ''0''"
        True "draw3 @ pipe_a"] f t(1) n(2,3)
    by simp
  have r1: "runOcrProcessingPipeline (env3\<lparr>show_res := Inr [10]\<rparr>) True (draw3 @ pipe_a) =
     (\<lparr>calls = [Mkdir 0, Mkdir 1, WriteFile, Mkdir 2, MutoolShow, Rm], ws_exists = False\<rparr>,
      Raised (InvalidPageCount []))"
    using invalid_page_count[of "env3\<lparr>show_res := Inr [10]\<rparr>" "[10]" "[]" True "draw3 @ pipe_a"]
      f t(2) n(4)
    by simp
  have r2: "runOcrProcessingPipeline (env3\<lparr>show_res := Inr (js ''error'')\<rparr>) True (draw3 @ pipe_a) =
     (\<lparr>calls = [Mkdir 0, Mkdir 1, WriteFile, Mkdir 2, MutoolShow, Rm], ws_exists = False\<rparr>,
      Raised (InvalidPageCount (js ''error'')))"
    using invalid_page_count[of "env3\<lparr>show_res := Inr (js ''error'')\<rparr>" "js ''error''" "js ''error''"
        True "draw3 @ pipe_a"] f t(3) n(5)
    by simp
  have r3: "getPdfPageCount (env3\<lparr>show_res := Inr (js ''7 pages'')\<rparr>) = Inr 7"
    using invalid_page_count[of "env3\<lparr>show_res := Inr (js ''7 pages'')\<rparr>" "js ''7 pages''"
        "js ''7 pages''" True "[]"] f t(4) n(6-8)
    by simp
  have r4: "runOcrProcessingPipeline (env3\<lparr>show_res := Inr (js ''-3'')\<rparr>) True (draw3 @ pipe_a) =
     (\<lparr>calls = [Mkdir 0, Mkdir 1, WriteFile, Mkdir 2, MutoolShow, Rm], ws_exists = False\<rparr>,
      Raised (InvalidPageCount (js ''-3'')))"
    using invalid_page_count[of "env3\<lparr>show_res := Inr (js ''-3'')\<rparr>" "js ''-3''" "js ''-3''"
        True "draw3 @ pipe_a"] f t(5) n(9,10)
    by simp
  have "(1::int) \<le> 7 \<and> (7::int) < 2 ^ 53" by simp
  then show ?thesis using f t n r0 r1 r2 r3 r4 by blast
qed

text \<open>
  Claim C9 is not what the code does. With the credentials file absent the initialiser
  rejects a promise that nothing awaits, and \<open>documentAiClient\<close> stays undefined. A run
  started afterwards makes the session directory, converts and enhances the page, and
  fails only at the recognition step, with a TypeError; no recognition request is made.
\<close>

theorem missing_credentials_run:
  "initDocumentAiClient False = (False, Some CredentialsNotFound)
   \<and> runOcrProcessingPipeline (env1\<lparr>client := fst (initDocumentAiClient False)\<rparr>) True (draw1 @ pipe1) =
     (\<lparr>calls = [Mkdir 0, Mkdir 1, WriteFile, Mkdir 2, MutoolShow, MutoolDraw 1, ReadDir,
                Enhance 0, Rm],
       ws_exists = False\<rparr>, Raised TypeError)"
  using try9 late9
  by (simp add: initDocumentAiClient_def runOcrProcessingPipeline_def cleanup_and_rethrow_def
      env1_fields)


end
